theory Spec2Isabelle
  imports Complex_Main "HOL-Library.Log_Nat"
begin

section \<open>Data model\<close>

text \<open>
  The model of \<^verbatim>\<open>hopenhayn.py\<close>. numpy's float arrays are lists of reals: the
  development is about the algorithm over the real numbers, so IEEE rounding, \<^verbatim>\<open>inf\<close> and
  \<^verbatim>\<open>nan\<close> are outside of it. The one exception is the arithmetic of \<^verbatim>\<open>solve_firm\<close> on
  the price interval, which is also modelled in double precision (\<open>solve_firm_double\<close>),
  because the bounds on the returned price depend on the rounding of the midpoint.
  One-dimensional arrays are \<open>vec\<close>, the transition matrix
  is a list of rows. The attributes that \<^verbatim>\<open>__init__\<close>, \<^verbatim>\<open>setup_parameters\<close> and
  \<^verbatim>\<open>setup_grid\<close> store on the object are the fields of the record \<open>Hopenhayn\<close>;
  \<^verbatim>\<open>self.pi\<close> is the field \<open>pi_mat\<close>. The discretisation itself
  (\<^verbatim>\<open>quantecon.markov.approximation.rouwenhorst\<close>) is library code: its results
  \<open>pi_mat\<close>, \<open>grid_z\<close> and \<open>nu\<close> are taken as given.
\<close>

type_synonym vec = "real list"
type_synonym mat = "real list list"

datatype error = ZeroDivisionError | ValueError | IndexError | UnboundLocalError | LinAlgError

record Hopenhayn =
  beta :: real
  theta :: real
  cf :: real
  ce :: real
  D :: real
  wage :: real
  Nz :: nat
  tol :: real
  maxit :: nat
  pi_mat :: mat
  grid_z :: vec
  nu :: vec

text \<open>
  The shapes \<^verbatim>\<open>setup_grid\<close> produces: \<open>Nz\<close> states, an \<open>Nz \<times> Nz\<close> matrix. On arrays
  of other shapes numpy broadcasts or raises; the model says nothing about them, and the
  theorems that look at entries assume \<open>shapes\<close>.
\<close>

definition shapes :: "Hopenhayn \<Rightarrow> bool" where
  "shapes m \<longleftrightarrow>
     length (grid_z m) = Nz m \<and> length (nu m) = Nz m \<and> length (pi_mat m) = Nz m \<and>
     list_all (\<lambda>row. length row = Nz m) (pi_mat m)"

subsection \<open>numpy operations\<close>

definition zeros :: "nat \<Rightarrow> vec" where
  "zeros n = replicate n 0"

definition ones :: "nat \<Rightarrow> vec" where
  "ones n = replicate n 1"

definition vadd :: "vec \<Rightarrow> vec \<Rightarrow> vec" where
  "vadd xs ys = map2 (+) xs ys"

definition vsub :: "vec \<Rightarrow> vec \<Rightarrow> vec" where
  "vsub xs ys = map2 (-) xs ys"

definition vmul :: "vec \<Rightarrow> vec \<Rightarrow> vec" where
  "vmul xs ys = map2 (*) xs ys"

definition vdiv :: "vec \<Rightarrow> real \<Rightarrow> vec" where
  "vdiv xs c = map (\<lambda>x. x / c) xs"

definition smul :: "real \<Rightarrow> vec \<Rightarrow> vec" where
  "smul c xs = map (\<lambda>x. c * x) xs"

definition dot :: "vec \<Rightarrow> vec \<Rightarrow> real" where
  "dot xs ys = sum_list (map2 (*) xs ys)"

definition matvec :: "mat \<Rightarrow> vec \<Rightarrow> vec" where
  "matvec A x = map (\<lambda>row. dot row x) A"

text \<open>
  \<^verbatim>\<open>**\<close> on float arrays (\<^verbatim>\<open>numpy.power\<close>): \<open>0 ** 0\<close> is \<open>1\<close>, where \<open>0 powr 0\<close> is
  \<open>0\<close>. A negative base with a fractional exponent gives \<^verbatim>\<open>nan\<close>, and a zero base with
  a negative exponent \<^verbatim>\<open>inf\<close>: both are outside the model.
\<close>

definition power_np :: "real \<Rightarrow> real \<Rightarrow> real" where
  "power_np x y = (if x = 0 \<and> y = 0 then 1 else x powr y)"

text \<open>\<^verbatim>\<open>.clip(min=0)\<close>\<close>

definition clip_min0 :: "vec \<Rightarrow> vec" where
  "clip_min0 xs = map (\<lambda>x. max x 0) xs"

text \<open>\<^verbatim>\<open>.max()\<close> raises ValueError on an array of size zero.\<close>

fun amax :: "vec \<Rightarrow> error + real" where
  "amax [] = Inl ValueError"
| "amax (x # xs) = Inr (fold max xs x)"

definition cumsum :: "vec \<Rightarrow> vec" where
  "cumsum xs = map (\<lambda>k. sum_list (take (Suc k) xs)) [0..<length xs]"

text \<open>
  \<^verbatim>\<open>np.searchsorted(a, v)\<close> (side left) is numpy's binary search between \<open>0\<close> and the
  length of \<open>a\<close>: it never checks that \<open>a\<close> is sorted.
\<close>

function bsearch_left :: "vec \<Rightarrow> real \<Rightarrow> nat \<Rightarrow> nat \<Rightarrow> nat" where
  "bsearch_left a v lo hi =
     (if lo < hi
      then (let mid = lo + (hi - lo) div 2
            in if a ! mid < v then bsearch_left a v (mid + 1) hi
               else bsearch_left a v lo mid)
      else lo)"
  by pat_completeness auto
termination
  by (relation "measure (\<lambda>(a, v, lo, hi). hi - lo)") auto

declare bsearch_left.simps [simp del]

definition searchsorted :: "vec \<Rightarrow> real \<Rightarrow> nat" where
  "searchsorted a v = bsearch_left a v 0 (length a)"

definition eye :: "nat \<Rightarrow> mat" where
  "eye n = map (\<lambda>i. map (\<lambda>j. if i = j then 1 else 0) [0..<n]) [0..<n]"

text \<open>\<^verbatim>\<open>.T\<close> of an array with \<open>n\<close> columns.\<close>

definition transpose_n :: "nat \<Rightarrow> mat \<Rightarrow> mat" where
  "transpose_n n A = map (\<lambda>j. map (\<lambda>row. row ! j) A) [0..<n]"

definition msub :: "mat \<Rightarrow> mat \<Rightarrow> mat" where
  "msub A B = map2 vsub A B"

definition mmul :: "nat \<Rightarrow> mat \<Rightarrow> mat \<Rightarrow> mat" where
  "mmul n A B = map (\<lambda>row. map (\<lambda>j. dot row (map (\<lambda>r. r ! j) B)) [0..<n]) A"

subsection \<open>Python floats\<close>

text \<open>
  A Python float is an IEEE 754 double: 53 bits of precision, rounding to the nearest
  double with ties to the even significand. \<open>rne\<close> rounds a real to the nearest integer,
  ties to even. \<open>ulp_exp x\<close> is the exponent of the spacing of the doubles around \<open>x\<close>:
  \<open>\<lfloor>log\<^sub>2 \<bar>x\<bar>\<rfloor> - 52\<close> for a normal number, \<open>- 1074\<close> for a subnormal one or zero.
  \<open>fl64 x\<close> is the double nearest to \<open>x\<close>: the result of an arithmetic operation whose exact
  value is \<open>x\<close>, and the value of a literal. Overflow to \<^verbatim>\<open>inf\<close> (from \<open>2^1024 - 2^970\<close>
  on) is not modelled: the prices are at most \<open>100\<close>.
\<close>

definition rne :: "real \<Rightarrow> int" where
  "rne x = (let f = \<lfloor>x\<rfloor>; r = x - of_int f
            in if r < 1 / 2 then f else if 1 / 2 < r then f + 1
               else if even f then f else f + 1)"

definition ulp_exp :: "real \<Rightarrow> int" where
  "ulp_exp x = max (bitlen \<lfloor>\<bar>x\<bar> * 2 ^ 1074\<rfloor> - 1127) (- 1074)"

definition fl64 :: "real \<Rightarrow> real" where
  "fl64 x = of_int (rne (x / 2 powi ulp_exp x)) * 2 powi ulp_exp x"

section \<open>Problem of an incumbent plant\<close>

text \<open>
  \<^verbatim>\<open>incumbent_firm\<close>. \<^verbatim>\<open>1 / (1 - self.theta)\<close> is a division of Python floats and
  raises ZeroDivisionError when \<open>theta = 1\<close>. A zero wage or a negative base of \<^verbatim>\<open>**\<close>
  gives \<^verbatim>\<open>inf\<close> or \<^verbatim>\<open>nan\<close> in numpy and is outside the model: the theorems that depend
  on the values of the static solution assume a positive price, wage and grid and
  \<open>theta > 0\<close>.
\<close>

definition incumbent_firm :: "Hopenhayn \<Rightarrow> real \<Rightarrow> error + (vec \<times> vec \<times> vec)" where
  "incumbent_firm m price =
     (if 1 - theta m = 0 then Inl ZeroDivisionError
      else
        (let pol_n = map (\<lambda>z. power_np ((theta m * price * z) / wage m) (1 / (1 - theta m)))
                         (grid_z m);
             firm_output = vmul (grid_z m) (map (\<lambda>n. power_np n (theta m)) pol_n);
             firm_profit = vsub (vsub (smul price firm_output) (smul (wage m) pol_n))
                                (smul (cf m) (ones (Nz m)))
         in Inr (firm_profit, firm_output, pol_n)))"

section \<open>Incumbent and entrant firm problem\<close>

definition entry_condition :: "Hopenhayn \<Rightarrow> vec \<Rightarrow> real" where
  "entry_condition m VF = beta m * dot VF (nu m)"

text \<open>
  The loop of \<^verbatim>\<open>solve_vf\<close>, \<^verbatim>\<open>for it in range(self.maxit)\<close>: the counter is the
  number of iterations left, the state is \<open>VF_old\<close> and \<open>VF\<close>.
\<close>

fun vf_loop :: "Hopenhayn \<Rightarrow> vec \<Rightarrow> nat \<Rightarrow> vec \<Rightarrow> vec \<Rightarrow> error + vec" where
  "vf_loop m firm_profit 0 VF_old VF = Inr VF"
| "vf_loop m firm_profit (Suc n) VF_old VF0 =
     (let VF = vadd firm_profit (smul (beta m) (clip_min0 (matvec (pi_mat m) VF_old)))
      in case amax (map abs (vsub VF_old VF)) of
           Inl e \<Rightarrow> Inl e
         | Inr dist_it \<Rightarrow>
             if dist_it < tol m then Inr VF
             else vf_loop m firm_profit n VF VF)"

definition solve_vf :: "Hopenhayn \<Rightarrow> real \<Rightarrow> error + (vec \<times> vec \<times> vec \<times> vec)" where
  "solve_vf m price =
     (let VF_old = zeros (Nz m); VF = zeros (Nz m)
      in case incumbent_firm m price of
           Inl e \<Rightarrow> Inl e
         | Inr (firm_profit, firm_output, pol_n) \<Rightarrow>
             (case vf_loop m firm_profit (maxit m) VF_old VF of
                Inl e \<Rightarrow> Inl e
              | Inr VF' \<Rightarrow> Inr (VF', firm_profit, firm_output, pol_n)))"

text \<open>\<^verbatim>\<open>exit_decision\<close>: \<^verbatim>\<open>self.grid_z[idx]\<close> raises IndexError when \<open>idx\<close> is out of range.\<close>

definition exit_decision :: "Hopenhayn \<Rightarrow> vec \<Rightarrow> error + (real \<times> int list)" where
  "exit_decision m VF =
     (let avg_VF = matvec (pi_mat m) VF;
          idx = searchsorted avg_VF 0
      in if idx < length (grid_z m)
         then (let exit_cutoff = grid_z m ! idx;
                   pol_exit = map (\<lambda>z. if z < exit_cutoff then 1 else 0) (grid_z m)
               in Inr (exit_cutoff, pol_exit))
         else Inl IndexError)"

text \<open>
  The loop of \<^verbatim>\<open>solve_firm\<close>. \<open>price\<close> is unbound until the first iteration has
  assigned it, so \<^verbatim>\<open>return price\<close> raises UnboundLocalError when the loop body never ran.
\<close>

fun price_loop :: "Hopenhayn \<Rightarrow> nat \<Rightarrow> real \<Rightarrow> real \<Rightarrow> real option \<Rightarrow> error + real" where
  "price_loop m 0 pmin pmax price0 =
     (case price0 of None \<Rightarrow> Inl UnboundLocalError | Some price \<Rightarrow> Inr price)"
| "price_loop m (Suc n) pmin pmax price0 =
     (let price = (pmin + pmax) / 2
      in case solve_vf m price of
           Inl e \<Rightarrow> Inl e
         | Inr (VF, firm_profit, firm_output, pol_n) \<Rightarrow>
             (let VF_entrant = entry_condition m VF;
                  diff = \<bar>VF_entrant - ce m\<bar>
              in if diff < tol m then Inr price
                 else if VF_entrant < ce m then price_loop m n price pmax (Some price)
                 else price_loop m n pmin price (Some price)))"

definition solve_firm :: "Hopenhayn \<Rightarrow> error + real" where
  "solve_firm m = price_loop m (maxit m) (1 / 100) 100 None"

text \<open>
  The same loop with the price arithmetic of Python floats. \<^verbatim>\<open>(pmin+pmax)/2\<close> is two
  operations, an addition and a division, each rounded to the nearest double; the literal
  \<^verbatim>\<open>0.01\<close> is the double nearest to \<open>1/100\<close>, and \<open>100\<close> is a double. The value function
  and the entrant value at the candidate price are still those over the reals.
\<close>

fun price_loop_double :: "Hopenhayn \<Rightarrow> nat \<Rightarrow> real \<Rightarrow> real \<Rightarrow> real option \<Rightarrow> error + real" where
  "price_loop_double m 0 pmin pmax price0 =
     (case price0 of None \<Rightarrow> Inl UnboundLocalError | Some price \<Rightarrow> Inr price)"
| "price_loop_double m (Suc n) pmin pmax price0 =
     (let price = fl64 (fl64 (pmin + pmax) / 2)
      in case solve_vf m price of
           Inl e \<Rightarrow> Inl e
         | Inr (VF, firm_profit, firm_output, pol_n) \<Rightarrow>
             (let VF_entrant = entry_condition m VF;
                  diff = \<bar>VF_entrant - ce m\<bar>
              in if diff < tol m then Inr price
                 else if VF_entrant < ce m then price_loop_double m n price pmax (Some price)
                 else price_loop_double m n pmin price (Some price)))"

definition solve_firm_double :: "Hopenhayn \<Rightarrow> error + real" where
  "solve_firm_double m = price_loop_double m (maxit m) (fl64 (1 / 100)) 100 None"

section \<open>Stationary distribution\<close>

text \<open>
  \<^verbatim>\<open>numpy.linalg.inv\<close> is library code: it is the parameter \<open>la_inv\<close>, which returns
  the inverse or raises LinAlgError. \<open>is_inverse\<close> is what it promises of a result, and
  \<open>returns_inverse\<close> says that it keeps the promise.
\<close>

definition is_inverse :: "nat \<Rightarrow> mat \<Rightarrow> mat \<Rightarrow> bool" where
  "is_inverse n A B \<longleftrightarrow>
     length B = n \<and> list_all (\<lambda>row. length row = n) B \<and>
     mmul n A B = eye n \<and> mmul n B A = eye n"

definition returns_inverse :: "nat \<Rightarrow> (mat \<Rightarrow> error + mat) \<Rightarrow> bool" where
  "returns_inverse n la_inv \<longleftrightarrow> (\<forall>A B. la_inv A = Inr B \<longrightarrow> is_inverse n A B)"

definition pi_tilde :: "Hopenhayn \<Rightarrow> int list \<Rightarrow> mat" where
  "pi_tilde m pol_exit =
     transpose_n (Nz m)
       (map2 (\<lambda>row e. map (\<lambda>x. x * real_of_int (1 - e)) row) (pi_mat m) pol_exit)"

definition solve_invariant_distribution ::
    "Hopenhayn \<Rightarrow> (mat \<Rightarrow> error + mat) \<Rightarrow> real \<Rightarrow> int list \<Rightarrow> error + vec" where
  "solve_invariant_distribution m la_inv mass pol_exit =
     (let I = eye (Nz m)
      in case la_inv (msub I (pi_tilde m pol_exit)) of
           Inl e \<Rightarrow> Inl e
         | Inr B \<Rightarrow> Inr (smul mass (matvec B (nu m))))"

text \<open>
  \<^verbatim>\<open>solve_m_star\<close>. On a zero denominator numpy returns \<^verbatim>\<open>inf\<close> with a warning, which
  is outside the model; the market-clearing theorem shows the denominator positive.
\<close>

definition solve_m_star :: "Hopenhayn \<Rightarrow> vec \<Rightarrow> vec \<Rightarrow> real" where
  "solve_m_star m distrib_stationary_0 firm_output = D m / dot distrib_stationary_0 firm_output"

section \<open>Main function\<close>

record Solution =
  price_ss :: real
  VF :: vec
  firm_profit :: vec
  firm_output :: vec
  pol_n :: vec
  exit_cutoff :: real
  pol_exit :: "int list"
  distrib_stationary_0 :: vec
  m_star :: real
  distrib_stationary :: vec
  total_mass :: real
  pdf_stationary :: vec
  cdf_stationary :: vec
  distrib_emp :: vec
  pdf_emp :: vec
  cdf_emp :: vec
  total_employment :: real
  average_firm_size :: real
  exit_rate :: real

text \<open>
  \<^verbatim>\<open>solve_model\<close> up to the statistics; plots and printing are left out. The attributes
  it stores on the object are the fields of \<open>Solution\<close>.
\<close>

definition solve_model :: "Hopenhayn \<Rightarrow> (mat \<Rightarrow> error + mat) \<Rightarrow> error + Solution" where
  "solve_model m la_inv =
     (case solve_firm m of
        Inl e \<Rightarrow> Inl e
      | Inr p \<Rightarrow>
     (case solve_vf m p of
        Inl e \<Rightarrow> Inl e
      | Inr (vf, fprofit, foutput, poln) \<Rightarrow>
     (case exit_decision m vf of
        Inl e \<Rightarrow> Inl e
      | Inr (cutoff, pexit) \<Rightarrow>
     (case solve_invariant_distribution m la_inv 1 pexit of
        Inl e \<Rightarrow> Inl e
      | Inr d0 \<Rightarrow>
          (let ms = solve_m_star m d0 foutput;
               ds = smul ms d0;
               tm = sum_list ds;
               pdf = vdiv ds tm;
               demp = vdiv (vmul poln pdf) (sum_list (vmul poln pdf));
               pemp = vdiv demp (sum_list demp);
               temp = dot poln ds
           in Inr \<lparr> price_ss = p, VF = vf, firm_profit = fprofit, firm_output = foutput,
                    pol_n = poln, exit_cutoff = cutoff, pol_exit = pexit,
                    distrib_stationary_0 = d0, m_star = ms, distrib_stationary = ds,
                    total_mass = tm, pdf_stationary = pdf, cdf_stationary = cumsum pdf,
                    distrib_emp = demp, pdf_emp = pemp, cdf_emp = cumsum pemp,
                    total_employment = temp, average_firm_size = temp / tm,
                    exit_rate = ms / tm \<rparr>)))))"

section \<open>Value-function iteration as the specification words it\<close>

text \<open>
  The Bellman update \<open>VF_new[z] = profit[z] + beta * max(0, (pi \<cdot> VF_old)[z])\<close>, its
  iterates from \<open>VF = 0\<close>, the maximum absolute difference of two iterates, and the
  iterate at which the iteration stops: the first \<open>k\<close> from \<open>1\<close> to \<open>maxit\<close> whose
  difference to iterate \<open>k - 1\<close> is below \<open>tol\<close>, and \<open>maxit\<close> when there is none.
\<close>

definition bellman :: "Hopenhayn \<Rightarrow> vec \<Rightarrow> vec \<Rightarrow> vec" where
  "bellman m profit V =
     map (\<lambda>z. profit ! z + beta m * max 0 (dot (pi_mat m ! z) V)) [0..<Nz m]"

definition vf_iterate :: "Hopenhayn \<Rightarrow> vec \<Rightarrow> nat \<Rightarrow> vec" where
  "vf_iterate m profit k = (bellman m profit ^^ k) (replicate (Nz m) 0)"

definition max_abs_diff :: "nat \<Rightarrow> vec \<Rightarrow> vec \<Rightarrow> real" where
  "max_abs_diff n U V = Max (set (map (\<lambda>z. \<bar>U ! z - V ! z\<bar>) [0..<n]))"

definition vf_converged_at :: "Hopenhayn \<Rightarrow> vec \<Rightarrow> nat \<Rightarrow> bool" where
  "vf_converged_at m profit k \<longleftrightarrow>
     max_abs_diff (Nz m) (vf_iterate m profit (k - 1)) (vf_iterate m profit k) < tol m"

definition vf_stop_from :: "Hopenhayn \<Rightarrow> vec \<Rightarrow> nat \<Rightarrow> nat \<Rightarrow> nat" where
  "vf_stop_from m profit j n =
     (case find (vf_converged_at m profit) [Suc j..<Suc (j + n)] of
        Some k \<Rightarrow> k | None \<Rightarrow> j + n)"

definition vf_spec :: "Hopenhayn \<Rightarrow> vec \<Rightarrow> vec" where
  "vf_spec m profit = vf_iterate m profit (vf_stop_from m profit 0 (maxit m))"

definition vf_converged :: "Hopenhayn \<Rightarrow> vec \<Rightarrow> bool" where
  "vf_converged m profit \<longleftrightarrow> list_ex (vf_converged_at m profit) [Suc 0..<Suc (maxit m)]"

section \<open>The price bisection as the specification words it\<close>

text \<open>
  The entrant value \<open>beta * (VF \<cdot> nu)\<close> at a price, with the value function that
  \<^verbatim>\<open>solve_vf\<close> returns there; the free-entry condition; the interval after \<open>k\<close> updates
  from \<open>[0.01, 100]\<close>, whose lower endpoint is raised to the midpoint when the entrant
  value there is below \<open>ce\<close> and whose upper endpoint is lowered to it otherwise; the
  candidate price of iteration \<open>k\<close>; and the candidate at which the search stops: the
  first of the \<open>maxit\<close> candidates to meet the free-entry condition, and the last one
  when there is none.
\<close>

definition entrant_value :: "Hopenhayn \<Rightarrow> real \<Rightarrow> real" where
  "entrant_value m price =
     (case solve_vf m price of
        Inr (V, fp, fo, pn) \<Rightarrow> entry_condition m V
      | Inl e \<Rightarrow> 0)"

definition free_entry_met :: "Hopenhayn \<Rightarrow> real \<Rightarrow> bool" where
  "free_entry_met m price \<longleftrightarrow> \<bar>entrant_value m price - ce m\<bar> < tol m"

fun bisect_interval :: "(real \<Rightarrow> real) \<Rightarrow> real \<Rightarrow> nat \<Rightarrow> real \<times> real" where
  "bisect_interval f c 0 = (1 / 100, 100)"
| "bisect_interval f c (Suc k) =
     (let (lo, hi) = bisect_interval f c k; p = (lo + hi) / 2
      in if f p < c then (p, hi) else (lo, p))"

definition candidate :: "(real \<Rightarrow> real) \<Rightarrow> real \<Rightarrow> nat \<Rightarrow> real" where
  "candidate f c k = (let (lo, hi) = bisect_interval f c k in (lo + hi) / 2)"

definition price_candidate :: "Hopenhayn \<Rightarrow> nat \<Rightarrow> real" where
  "price_candidate m k = candidate (entrant_value m) (ce m) k"

definition price_stop_from :: "Hopenhayn \<Rightarrow> nat \<Rightarrow> nat \<Rightarrow> nat" where
  "price_stop_from m j n =
     (case find (\<lambda>k. free_entry_met m (price_candidate m k)) [j..<j + n] of
        Some k \<Rightarrow> k | None \<Rightarrow> j + n - 1)"

definition bisection_spec :: "Hopenhayn \<Rightarrow> real" where
  "bisection_spec m = price_candidate m (price_stop_from m 0 (maxit m))"

definition price_converged :: "Hopenhayn \<Rightarrow> bool" where
  "price_converged m \<longleftrightarrow>
     list_ex (\<lambda>k. free_entry_met m (price_candidate m k)) [0..<maxit m]"

section \<open>Invariants of the data model\<close>

text \<open>
  A row-stochastic transition matrix and a probability vector of entrants; a monotone
  transition matrix: every row sums to one, and a later row puts at least as much mass on
  every upper set of states as an earlier row (first-order stochastic dominance).
\<close>

definition nonneg_matrix :: "mat \<Rightarrow> bool" where
  "nonneg_matrix A \<longleftrightarrow> list_all (list_all (\<lambda>x. 0 \<le> x)) A"



definition dominates :: "vec \<Rightarrow> vec \<Rightarrow> bool" where
  "dominates r r' \<longleftrightarrow>
     list_all (\<lambda>k. sum_list (drop k r) \<le> sum_list (drop k r')) [0..<length r]"

definition monotone_matrix :: "mat \<Rightarrow> bool" where
  "monotone_matrix P \<longleftrightarrow> sorted_wrt dominates P \<and> list_all (\<lambda>r. sum_list r = 1) P"

text \<open>A model in which no price of the search interval covers the fixed cost.\<close>

definition unprofitable :: "Hopenhayn \<Rightarrow> bool" where
  "unprofitable m \<longleftrightarrow>
     (\<forall>p fp fo pn. 1 / 100 < p \<and> p \<le> 100 \<and> incumbent_firm m p = Inr (fp, fo, pn)
         \<longrightarrow> (\<forall>y \<in> set fp. y \<le> 0))"

section \<open>Concrete instances\<close>

text \<open>
  Two productivity states with the default parameters of \<^verbatim>\<open>__init__\<close> and the
  tolerance and iteration cap of \<^verbatim>\<open>setup_parameters\<close>.
\<close>

definition m_exit :: Hopenhayn where
  "m_exit = \<lparr> beta = 4/5, theta = 2/3, cf = 20, ce = 40, D = 100, wage = 1, Nz = 2,
      tol = 1 / 10^8, maxit = 2000,
      pi_mat = [[3/4, 1/4], [1/4, 3/4]], grid_z = [1, 2], nu = [1/2, 1/2] \<rparr>"

text \<open>The same with a fixed cost of \<open>10^7\<close> and \<open>n\<close> iterations.\<close>

definition unprofitable_model :: "nat \<Rightarrow> Hopenhayn" where
  "unprofitable_model n = \<lparr> beta = 4/5, theta = 2/3, cf = 10^7, ce = 40, D = 100, wage = 1,
      Nz = 2, tol = 1 / 10^8, maxit = n,
      pi_mat = [[3/4, 1/4], [1/4, 3/4]], grid_z = [1, 2], nu = [1/2, 1/2] \<rparr>"

text \<open>
  A model with one iteration and a fixed cost that only the more productive state
  covers, and the inverse of a \<open>2 \<times> 2\<close> matrix for \<^verbatim>\<open>numpy.linalg.inv\<close>.
\<close>

definition entry_model :: Hopenhayn where
  "entry_model = \<lparr> beta = 4/5, theta = 2/3, cf = 60000, ce = 40, D = 100, wage = 1,
      Nz = 2, tol = 1 / 10^8, maxit = 1,
      pi_mat = [[3/4, 1/4], [1/4, 3/4]], grid_z = [1, 2], nu = [1/2, 1/2] \<rparr>"

definition inv_2x2 :: "mat \<Rightarrow> error + mat" where
  "inv_2x2 A =
     (case A of
        [[a, b], [c, d]] \<Rightarrow>
          (if a * d - b * c = 0 then Inl LinAlgError
           else Inr [[d / (a * d - b * c), - b / (a * d - b * c)],
                     [- c / (a * d - b * c), a / (a * d - b * c)]])
      | _ \<Rightarrow> Inl LinAlgError)"

section \<open>Value-function iteration\<close>

lemma length_bellman [simp]: "length (bellman m fp V) = Nz m"
  by (simp add: bellman_def)

lemma length_vf_iterate [simp]: "length (vf_iterate m fp k) = Nz m"
  by (cases k) (simp_all add: vf_iterate_def)

lemma bellman_step:
  assumes "length fp = Nz m" "length (pi_mat m) = Nz m"
  shows "vadd fp (smul (beta m) (clip_min0 (matvec (pi_mat m) V))) = bellman m fp V"
  using assms
  by (intro nth_equalityI)
     (simp_all add: vadd_def smul_def clip_min0_def matvec_def bellman_def max.commute)

lemma amax_abs_vsub:
  assumes "length U = n" "length V = n" "0 < n"
  shows "amax (map abs (vsub U V)) = Inr (max_abs_diff n U V)"
proof -
  have eq: "map abs (vsub U V) = map (\<lambda>z. \<bar>U ! z - V ! z\<bar>) [0..<n]"
    using assms by (intro nth_equalityI) (simp_all add: vsub_def)
  obtain x xs where xs: "map (\<lambda>z. \<bar>U ! z - V ! z\<bar>) [0..<n] = x # xs"
    using assms(3) by (cases "map (\<lambda>z. \<bar>U ! z - V ! z\<bar>) [0..<n]") auto
  show ?thesis
    unfolding eq max_abs_diff_def xs using Max.set_eq_fold[of x xs] by simp
qed

lemma vf_iterate_Suc: "bellman m fp (vf_iterate m fp j) = vf_iterate m fp (Suc j)"
  by (simp add: vf_iterate_def)

lemma vf_loop_iterate:
  assumes "length fp = Nz m" "length (pi_mat m) = Nz m" "0 < Nz m"
  shows "vf_loop m fp n (vf_iterate m fp j) (vf_iterate m fp j)
         = Inr (vf_iterate m fp (vf_stop_from m fp j n))"
proof (induction n arbitrary: j)
  case 0
  show ?case by (simp add: vf_stop_from_def)
next
  case (Suc n)
  have upt: "[Suc j..<Suc (Suc (j + n))] = Suc j # [Suc (Suc j)..<Suc (Suc (j + n))]"
    by (simp add: upt_conv_Cons)
  have d: "amax (map abs (vsub (vf_iterate m fp j) (vf_iterate m fp (Suc j))))
           = Inr (max_abs_diff (Nz m) (vf_iterate m fp j) (vf_iterate m fp (Suc j)))"
    using assms(3) by (intro amax_abs_vsub) simp_all
  show ?case
  proof (cases "vf_converged_at m fp (Suc j)")
    case True
    then show ?thesis
      using d by (simp add: bellman_step[OF assms(1,2)] vf_iterate_Suc Let_def
          vf_stop_from_def upt vf_converged_at_def del: upt_Suc)
  next
    case False
    then show ?thesis
      using d Suc.IH[of "Suc j"]
      by (simp add: bellman_step[OF assms(1,2)] vf_iterate_Suc Let_def
          vf_stop_from_def upt vf_converged_at_def del: upt_Suc split: option.split)
  qed
qed

lemma incumbent_firm_Inr:
  assumes "theta m \<noteq> 1"
  shows "\<exists>fp fo pn. incumbent_firm m price = Inr (fp, fo, pn)"
  using assms by (simp add: incumbent_firm_def Let_def)

lemma incumbent_firm_length:
  assumes "incumbent_firm m price = Inr (fp, fo, pn)" "length (grid_z m) = Nz m"
  shows "length fp = Nz m" "length fo = Nz m" "length pn = Nz m"
  using assms
  by (auto simp: incumbent_firm_def Let_def vsub_def vmul_def smul_def ones_def split: if_splits)

lemma solve_vf_eq:
  assumes "shapes m" "0 < Nz m" "incumbent_firm m price = Inr (fp, fo, pn)"
  shows "solve_vf m price = Inr (vf_spec m fp, fp, fo, pn)"
proof -
  have len: "length fp = Nz m" "length (pi_mat m) = Nz m"
    using incumbent_firm_length(1)[OF assms(3)] assms(1) by (simp_all add: shapes_def)
  have z: "zeros (Nz m) = vf_iterate m fp 0"
    by (simp add: zeros_def vf_iterate_def)
  show ?thesis
    using vf_loop_iterate[OF len assms(2), of "maxit m" 0]
    by (simp add: solve_vf_def assms(3) z vf_spec_def Let_def)
qed

text \<open>
  C2. For every price (with \<open>theta \<noteq> 1\<close>, so that the static problem returns, and at
  least one state), \<^verbatim>\<open>solve_vf\<close> returns the static solution together with the
  iterate of the Bellman update, started at \<open>VF = 0\<close>, at which the maximum absolute
  difference of successive iterates first falls below \<open>tol\<close>, and the iterate number
  \<open>maxit\<close> when that never happens in \<open>maxit\<close> iterations.
\<close>

theorem solve_vf_refines_spec:
  assumes "shapes m" "0 < Nz m" "theta m \<noteq> 1"
  shows "\<exists>fp fo pn. incumbent_firm m price = Inr (fp, fo, pn) \<and>
           solve_vf m price = Inr (vf_spec m fp, fp, fo, pn)"
  using incumbent_firm_Inr[OF assms(3)] solve_vf_eq[OF assms(1,2)] by blast

theorem solve_vf_refines_spec_witness:
  "shapes m_exit \<and> 0 < Nz m_exit \<and> theta m_exit \<noteq> 1 \<and>
   (\<exists>fp fo pn. incumbent_firm m_exit 1 = Inr (fp, fo, pn) \<and>
           solve_vf m_exit 1 = Inr (vf_spec m_exit fp, fp, fo, pn))"
  using solve_vf_refines_spec [of m_exit 1]
  by (simp add: shapes_def m_exit_def)

section \<open>The exit rule when every continuation value is negative\<close>

lemma bsearch_left_all_below:
  "lo \<le> hi \<Longrightarrow> (\<forall>i<hi. a ! i < v) \<Longrightarrow> bsearch_left a v lo hi = hi"
proof (induction a v lo hi rule: bsearch_left.induct)
  case (1 a v lo hi)
  show ?case
  proof (cases "lo < hi")
    case True
    let ?mid = "lo + (hi - lo) div 2"
    from True have mid: "?mid < hi" by linarith
    with 1(4) have "a ! ?mid < v" by blast
    moreover have "bsearch_left a v (?mid + 1) hi = hi"
      using 1(1)[OF True refl \<open>a ! ?mid < v\<close>] mid 1(4) by simp
    ultimately show ?thesis
      using True by (subst bsearch_left.simps) (simp add: Let_def)
  next
    case False
    with 1(3) show ?thesis by (subst bsearch_left.simps) simp
  qed
qed

text \<open>
  C4. When the expected continuation value \<open>pi \<cdot> V\<close> is strictly negative at every
  state, the binary search returns the length of the array, and the lookup
  \<^verbatim>\<open>self.grid_z[idx]\<close> is out of range: \<^verbatim>\<open>exit_decision\<close> raises IndexError
  instead of returning a result that reports that all firms exit.
\<close>

theorem exit_decision_all_negative:
  assumes "length (pi_mat m) = length (grid_z m)"
    and "\<forall>x \<in> set (matvec (pi_mat m) V). x < 0"
  shows "exit_decision m V = Inl IndexError"
proof -
  let ?a = "matvec (pi_mat m) V"
  have len: "length ?a = length (grid_z m)"
    using assms(1) by (simp add: matvec_def)
  have "\<forall>i<length ?a. ?a ! i < 0"
    using assms(2) by (metis nth_mem)
  then have "searchsorted ?a 0 = length ?a"
    unfolding searchsorted_def by (intro bsearch_left_all_below) simp_all
  then show ?thesis
    using len by (simp add: exit_decision_def Let_def)
qed

theorem exit_decision_all_negative_witness:
  "exit_decision m_exit [-1, -1] = Inl IndexError"
  using exit_decision_all_negative [of m_exit "[-1, -1]"]
  by (simp add: m_exit_def matvec_def dot_def)

section \<open>The price bisection\<close>

lemma solve_vf_entrant:
  assumes "shapes m" "0 < Nz m" "theta m \<noteq> 1"
  shows "\<exists>V fp fo pn. solve_vf m price = Inr (V, fp, fo, pn) \<and>
            entry_condition m V = entrant_value m price"
proof -
  obtain fp fo pn where "incumbent_firm m price = Inr (fp, fo, pn)"
    using incumbent_firm_Inr[OF assms(3)] by blast
  from solve_vf_eq[OF assms(1,2) this] show ?thesis
    by (simp add: entrant_value_def)
qed

lemma price_loop_candidate:
  assumes "shapes m" "0 < Nz m" "theta m \<noteq> 1"
  shows "price_loop m (Suc n) (fst (bisect_interval (entrant_value m) (ce m) j))
            (snd (bisect_interval (entrant_value m) (ce m) j)) pr
         = Inr (price_candidate m (price_stop_from m j (Suc n)))"
proof (induction n arbitrary: j pr)
  case 0
  let ?p = "price_candidate m j"
  obtain V fp fo pn where sv: "solve_vf m ?p = Inr (V, fp, fo, pn)"
      and ev: "entry_condition m V = entrant_value m ?p"
    using solve_vf_entrant[OF assms] by blast
  have mid: "(fst (bisect_interval (entrant_value m) (ce m) j)
              + snd (bisect_interval (entrant_value m) (ce m) j)) / 2 = ?p"
    by (simp add: price_candidate_def candidate_def split_beta)
  show ?case
    by (simp add: mid sv ev Let_def price_stop_from_def free_entry_met_def)
next
  case (Suc n)
  let ?p = "price_candidate m j"
  obtain V fp fo pn where sv: "solve_vf m ?p = Inr (V, fp, fo, pn)"
      and ev: "entry_condition m V = entrant_value m ?p"
    using solve_vf_entrant[OF assms] by blast
  have mid: "(fst (bisect_interval (entrant_value m) (ce m) j)
              + snd (bisect_interval (entrant_value m) (ce m) j)) / 2 = ?p"
    by (simp add: price_candidate_def candidate_def split_beta)
  have upt: "[j..<Suc (Suc (j + n))] = j # [Suc j..<Suc (Suc (j + n))]"
    by (simp add: upt_conv_Cons)
  show ?case
  proof (cases "free_entry_met m ?p")
    case True
    then show ?thesis
      by (simp add: mid sv ev Let_def price_stop_from_def free_entry_met_def upt
            del: price_loop.simps(2) upt_Suc) (simp add: mid sv ev Let_def)
  next
    case False
    have nxt: "bisect_interval (entrant_value m) (ce m) (Suc j)
          = (if entrant_value m ?p < ce m
             then (?p, snd (bisect_interval (entrant_value m) (ce m) j))
             else (fst (bisect_interval (entrant_value m) (ce m) j), ?p))"
      by (simp add: price_candidate_def candidate_def split_beta Let_def)
    have stop: "price_stop_from m j (Suc (Suc n)) = price_stop_from m (Suc j) (Suc n)"
      using False by (simp add: price_stop_from_def upt del: upt_Suc split: option.split)
    have "price_loop m (Suc (Suc n)) (fst (bisect_interval (entrant_value m) (ce m) j))
            (snd (bisect_interval (entrant_value m) (ce m) j)) pr
          = price_loop m (Suc n) (fst (bisect_interval (entrant_value m) (ce m) (Suc j)))
            (snd (bisect_interval (entrant_value m) (ce m) (Suc j))) (Some ?p)"
      using False
      by (subst price_loop.simps(2))
         (simp add: mid sv ev Let_def free_entry_met_def nxt del: price_loop.simps(2) bisect_interval.simps)
    then show ?thesis
      using Suc.IH[of "Suc j" "Some ?p"] stop by simp
  qed
qed

lemma solve_firm_eq:
  assumes "shapes m" "0 < Nz m" "theta m \<noteq> 1" "0 < maxit m"
  shows "solve_firm m = Inr (bisection_spec m)"
proof -
  obtain n where n: "maxit m = Suc n"
    using assms(4) by (cases "maxit m") auto
  show ?thesis
    using price_loop_candidate[OF assms(1-3), of n 0 None]
    by (simp add: solve_firm_def bisection_spec_def n)
qed



lemma half_power_bounds:
  fixes d :: real
  assumes "d = (9999 / 100) / 2 ^ k"
  shows "0 < d" "d \<le> 9999 / 100"
proof -
  show "0 < d" unfolding assms by simp
  have "(1::real) \<le> 2 ^ k" by simp
  then show "d \<le> 9999 / 100"
    unfolding assms by (simp add: divide_le_eq)
qed

lemma bisect_interval_raise:
  assumes "\<And>p. 1 / 100 < p \<Longrightarrow> p < 100 \<Longrightarrow> f p < c"
  shows "bisect_interval f c k = (100 - (9999 / 100) / 2 ^ k, 100)"
proof (induction k)
  case 0
  show ?case by simp
next
  case (Suc k)
  define d :: real where "d = (9999 / 100) / 2 ^ k"
  have d: "0 < d" "d \<le> 9999 / 100"
    using half_power_bounds[OF d_def] .
  have "1 / 100 < (100 - d + 100) / 2" "(100 - d + 100) / 2 < 100"
    using d by simp_all
  then have "f ((100 - d + 100) / 2) < c" by (rule assms)
  moreover have "(100 - d + 100) / 2 = 100 - (9999 / 100) / 2 ^ Suc k"
    by (simp add: d_def field_simps)
  ultimately show ?case
    using Suc.IH by (simp add: Let_def d_def)
qed

lemma price_candidate_raise:
  assumes "\<And>p. 1 / 100 < p \<Longrightarrow> p < 100 \<Longrightarrow> entrant_value m p < ce m"
  shows "price_candidate m k = 100 - (9999 / 100) / 2 ^ Suc k"
  by (simp add: price_candidate_def candidate_def bisect_interval_raise[OF assms] field_simps)

lemma price_candidate_raise_inside:
  assumes "\<And>p. 1 / 100 < p \<Longrightarrow> p < 100 \<Longrightarrow> entrant_value m p < ce m"
  shows "1 / 100 < price_candidate m k \<and> price_candidate m k < 100"
proof -
  define d :: real where "d = (9999 / 100) / 2 ^ k"
  have d: "0 < d" "d \<le> 9999 / 100"
    using half_power_bounds[OF d_def] .
  have "price_candidate m k = 100 - d / 2"
    using price_candidate_raise[of m k] assms unfolding d_def by simp
  then show ?thesis using d by simp
qed

lemma price_stop_none:
  assumes "\<And>k. \<not> free_entry_met m (price_candidate m k)"
  shows "price_stop_from m j n = j + n - 1"
proof -
  have "find (\<lambda>k. free_entry_met m (price_candidate m k)) [j..<j + n] = None"
    using assms by (simp add: find_None_iff)
  then show ?thesis by (simp add: price_stop_from_def)
qed

section \<open>Models whose fixed cost no price covers\<close>

lemma sum_list_all_zero: "\<forall>x \<in> set xs. x = (0::real) \<Longrightarrow> sum_list xs = 0"
  by (induction xs) auto

lemma dot_replicate_zero: "dot row (replicate n 0) = 0"
proof -
  have "\<forall>x \<in> set (map2 (*) row (replicate n (0::real))). x = 0"
    by (auto dest: set_zip_rightD)
  then show ?thesis
    unfolding dot_def by (rule sum_list_all_zero)
qed

lemma dot_nonneg_nonpos:
  assumes "\<forall>x \<in> set xs. 0 \<le> x" "\<forall>y \<in> set ys. y \<le> 0"
  shows "dot xs ys \<le> 0" "dot ys xs \<le> 0"
proof -
  have "x \<le> 0" if mem: "x \<in> set (map2 (*) xs ys)" for x
  proof -
    obtain a b where ab: "(a, b) \<in> set (zip xs ys)" "x = a * b" using mem by auto
    then have "a \<in> set xs" "b \<in> set ys"
      by (auto dest: set_zip_leftD set_zip_rightD)
    then show ?thesis using assms ab(2) by (simp add: mult_nonneg_nonpos)
  qed
  then show "dot xs ys \<le> 0"
    unfolding dot_def by (rule sum_list_nonpos)
  have "x \<le> 0" if mem: "x \<in> set (map2 (*) ys xs)" for x
  proof -
    obtain a b where ab: "(a, b) \<in> set (zip ys xs)" "x = a * b" using mem by auto
    then have "a \<in> set ys" "b \<in> set xs"
      by (auto dest: set_zip_leftD set_zip_rightD)
    then show ?thesis using assms ab(2) by (simp add: mult_nonpos_nonneg)
  qed
  then show "dot ys xs \<le> 0"
    unfolding dot_def by (rule sum_list_nonpos)
qed

lemma bellman_nonpos_profit:
  assumes "length fp = Nz m" "length (pi_mat m) = Nz m" "nonneg_matrix (pi_mat m)"
    and "\<forall>y \<in> set fp. y \<le> 0"
  shows "bellman m fp (replicate (Nz m) 0) = fp" "bellman m fp fp = fp"
proof -
  show "bellman m fp (replicate (Nz m) 0) = fp"
    using assms(1) by (intro nth_equalityI) (simp_all add: bellman_def dot_replicate_zero)
  have "max 0 (dot (pi_mat m ! z) fp) = 0" if "z < Nz m" for z
  proof -
    have "pi_mat m ! z \<in> set (pi_mat m)" using that assms(2) by simp
    then have "\<forall>x \<in> set (pi_mat m ! z). 0 \<le> x"
      using assms(3) by (simp add: nonneg_matrix_def list_all_iff)
    then have "dot (pi_mat m ! z) fp \<le> 0" using assms(4) by (rule dot_nonneg_nonpos)
    then show ?thesis by simp
  qed
  then show "bellman m fp fp = fp"
    using assms(1) by (intro nth_equalityI) (simp_all add: bellman_def)
qed

lemma vf_iterate_nonpos_profit:
  assumes "length fp = Nz m" "length (pi_mat m) = Nz m" "nonneg_matrix (pi_mat m)"
    and "\<forall>y \<in> set fp. y \<le> 0"
  shows "vf_iterate m fp (Suc k) = fp"
proof (induction k)
  case 0
  show ?case using bellman_nonpos_profit(1)[OF assms] by (simp add: vf_iterate_def)
next
  case (Suc k)
  have "vf_iterate m fp (Suc (Suc k)) = bellman m fp (vf_iterate m fp (Suc k))"
    by (simp add: vf_iterate_def)
  then show ?case using Suc bellman_nonpos_profit(2)[OF assms] by simp
qed

lemma vf_stop_from_pos:
  assumes "0 < n"
  shows "\<exists>k. vf_stop_from m fp 0 n = Suc k"
proof (cases "find (vf_converged_at m fp) [Suc 0..<Suc n]")
  case None
  then show ?thesis using assms by (cases n) (simp_all add: vf_stop_from_def)
next
  case (Some k)
  then have "k \<in> set [Suc 0..<Suc n]"
    by (metis find_Some_iff nth_mem)
  then have "0 < k" unfolding set_upt by simp
  then show ?thesis using Some by (cases k) (simp_all add: vf_stop_from_def)
qed

lemma vf_spec_nonpos_profit:
  assumes "length fp = Nz m" "length (pi_mat m) = Nz m" "nonneg_matrix (pi_mat m)"
    and "\<forall>y \<in> set fp. y \<le> 0" "0 < maxit m"
  shows "vf_spec m fp = fp"
proof -
  obtain k where "vf_stop_from m fp 0 (maxit m) = Suc k"
    using vf_stop_from_pos[OF assms(5)] by blast
  then show ?thesis
    using vf_iterate_nonpos_profit[OF assms(1-4)] by (simp add: vf_spec_def)
qed

lemma entrant_value_unprofitable:
  assumes "shapes m" "0 < Nz m" "theta m \<noteq> 1" "0 < maxit m" "nonneg_matrix (pi_mat m)"
    and "\<forall>x \<in> set (nu m). 0 \<le> x" "0 \<le> beta m" "unprofitable m"
    and "1 / 100 < p" "p \<le> 100"
  shows "entrant_value m p \<le> 0"
proof -
  obtain fp fo pn where inc: "incumbent_firm m p = Inr (fp, fo, pn)"
    using incumbent_firm_Inr[OF assms(3)] by blast
  have neg: "\<forall>y \<in> set fp. y \<le> 0"
    using assms(8-10) inc unfolding unprofitable_def by blast
  have len: "length fp = Nz m" "length (pi_mat m) = Nz m"
    using incumbent_firm_length(1)[OF inc] assms(1) by (simp_all add: shapes_def)
  have "solve_vf m p = Inr (fp, fp, fo, pn)"
    using solve_vf_eq[OF assms(1,2) inc] vf_spec_nonpos_profit[OF len assms(5) neg assms(4)]
    by simp
  then have "entrant_value m p = beta m * dot fp (nu m)"
    by (simp add: entrant_value_def entry_condition_def)
  moreover have "dot fp (nu m) \<le> 0"
    using dot_nonneg_nonpos(2)[OF assms(6) neg] .
  ultimately show ?thesis
    using assms(7) by (simp add: mult_nonneg_nonpos)
qed

lemma solve_firm_unprofitable:
  assumes "shapes m" "0 < Nz m" "theta m \<noteq> 1" "0 < maxit m" "nonneg_matrix (pi_mat m)"
    and "\<forall>x \<in> set (nu m). 0 \<le> x" "0 \<le> beta m" "unprofitable m"
    and "0 < ce m" "tol m \<le> ce m"
  shows "solve_firm m = Inr (100 - (9999 / 100) / 2 ^ maxit m)"
    and "\<not> free_entry_met m (100 - (9999 / 100) / 2 ^ maxit m)"
    and "entrant_value m (100 - (9999 / 100) / 2 ^ maxit m) < ce m"
proof -
  have below: "entrant_value m p < ce m" if "1 / 100 < p" "p < 100" for p
    using entrant_value_unprofitable[OF assms(1-8), of p] that assms(9) by simp
  have inside: "1 / 100 < price_candidate m k \<and> price_candidate m k < 100" for k
    using price_candidate_raise_inside[of m k] below by blast
  have notmet: "\<not> free_entry_met m (price_candidate m k)" for k
    using entrant_value_unprofitable[OF assms(1-8), of "price_candidate m k"] inside[of k]
      assms(10) by (simp add: free_entry_met_def)
  obtain n where n: "maxit m = Suc n"
    using assms(4) by (cases "maxit m") auto
  have cand: "price_candidate m n = 100 - (9999 / 100) / 2 ^ maxit m"
    using price_candidate_raise[of m n] below unfolding n by blast
  have "bisection_spec m = price_candidate m n"
    using price_stop_none[of m 0 "maxit m"] notmet by (simp add: bisection_spec_def n)
  then show "solve_firm m = Inr (100 - (9999 / 100) / 2 ^ maxit m)"
    using solve_firm_eq[OF assms(1-4)] cand by simp
  show "\<not> free_entry_met m (100 - (9999 / 100) / 2 ^ maxit m)"
    using notmet[of n] cand by simp
  show "entrant_value m (100 - (9999 / 100) / 2 ^ maxit m) < ce m"
    using below inside[of n] cand by simp
qed

lemma power_np_powr: "y \<noteq> 0 \<Longrightarrow> power_np x y = x powr y"
  by (simp add: power_np_def)

lemma incumbent_firm_nth:
  assumes "incumbent_firm m price = Inr (fp, fo, pn)" "length (grid_z m) = Nz m" "i < Nz m"
    and "theta m \<noteq> 0"
  shows "pn ! i = ((theta m * price * grid_z m ! i) / wage m) powr (1 / (1 - theta m))"
    and "fo ! i = grid_z m ! i * (pn ! i) powr theta m"
    and "fp ! i = price * fo ! i - wage m * pn ! i - cf m"
  using assms
  by (auto simp: incumbent_firm_def Let_def vsub_def vmul_def smul_def ones_def power_np_powr
        split: if_splits)

lemma profit_unprofitable_model:
  fixes p z n :: real
  assumes "0 < p" "p \<le> 100" "0 < z" "z \<le> 2"
    and n: "n = ((2 / 3 * p * z) / 1) powr (1 / (1 - 2 / 3))"
  shows "p * (z * n powr (2 / 3)) - 1 * n - 10 ^ 7 \<le> - 1"
proof -
  define b where "b = 2 / 3 * p * z"
  have "p * z \<le> 100 * 2"
    using assms by (intro mult_mono) simp_all
  then have b: "0 < b" "b \<le> 400 / 3"
    using assms unfolding b_def by simp_all
  have n3: "n = b powr 3"
    unfolding n b_def by simp
  have "n powr (2 / 3) = b powr (3 * (2 / 3))"
    unfolding n3 by (simp only: powr_powr)
  also have "\<dots> = b ^ 2"
    using b(1) by simp
  finally have e: "n powr (2 / 3) = b ^ 2" .
  have "b ^ 2 \<le> (400 / 3) ^ 2"
    using b by (intro power_mono) simp_all
  then have zb: "z * b ^ 2 \<le> 2 * (400 / 3) ^ 2"
    using assms(3,4) by (intro mult_mono) simp_all
  have "p * (z * b ^ 2) \<le> 100 * (2 * (400 / 3) ^ 2)"
    by (rule mult_mono) (use assms(1,2,3) zb in simp_all)
  moreover have "(100::real) * (2 * (400 / 3) ^ 2) \<le> 10 ^ 7 - 1"
    by (simp add: power2_eq_square)
  moreover have "0 \<le> n" unfolding n3 by simp
  ultimately show ?thesis
    unfolding e by linarith
qed

lemma unprofitable_model_profit:
  assumes p: "1 / 100 < p" "p \<le> 100"
    and inc: "incumbent_firm (unprofitable_model n) p = Inr (fp, fo, pn)"
  shows "length fp = 2" "i < 2 \<Longrightarrow> fp ! i \<le> - 1"
proof -
  let ?m = "unprofitable_model n"
  have g: "length (grid_z ?m) = Nz ?m" by (simp add: unprofitable_model_def)
  show "length fp = 2"
    using incumbent_firm_length(1)[OF inc g] by (simp add: unprofitable_model_def)
  assume i: "i < 2"
  have iN: "i < Nz ?m" using i by (simp add: unprofitable_model_def)
  have z: "0 < grid_z ?m ! i" "grid_z ?m ! i \<le> 2"
    using i by (auto simp: unprofitable_model_def less_Suc_eq numeral_2_eq_2)
  have th: "theta ?m \<noteq> 0" by (simp add: unprofitable_model_def)
  show "fp ! i \<le> - 1"
    using profit_unprofitable_model[of p "grid_z ?m ! i" "pn ! i"] p z
      incumbent_firm_nth[OF inc g iN th]
    by (simp add: unprofitable_model_def)
qed

lemma unprofitable_model_unprofitable: "unprofitable (unprofitable_model n)"
  unfolding unprofitable_def
proof (intro allI impI ballI, elim conjE)
  fix p fp fo pn y
  assume p: "1 / 100 < p" "p \<le> 100"
    and inc: "incumbent_firm (unprofitable_model n) p = Inr (fp, fo, pn)"
    and y: "y \<in> set fp"
  obtain i where i: "i < 2" "y = fp ! i"
    using y unprofitable_model_profit(1)[OF p inc] by (metis in_set_conv_nth)
  show "y \<le> 0"
    using unprofitable_model_profit(2)[OF p inc i(1)] i(2) by simp
qed

lemma unprofitable_model_facts:
  "shapes (unprofitable_model n)" "0 < Nz (unprofitable_model n)"
  "theta (unprofitable_model n) \<noteq> 1"
  "nonneg_matrix (pi_mat (unprofitable_model n))"
  "\<forall>x \<in> set (nu (unprofitable_model n)). 0 \<le> x" "0 \<le> beta (unprofitable_model n)"
  "0 < ce (unprofitable_model n)" "tol (unprofitable_model n) \<le> ce (unprofitable_model n)"
  "maxit (unprofitable_model n) = n"
  by (simp_all add: unprofitable_model_def shapes_def nonneg_matrix_def)

lemma solve_firm_unprofitable_model:
  assumes "0 < n"
  shows "solve_firm (unprofitable_model n) = Inr (100 - (9999 / 100) / 2 ^ n)"
    and "\<not> free_entry_met (unprofitable_model n) (100 - (9999 / 100) / 2 ^ n)"
proof -
  note f = unprofitable_model_facts[of n]
  have mx: "0 < maxit (unprofitable_model n)" using assms f(9) by simp
  show "solve_firm (unprofitable_model n) = Inr (100 - (9999 / 100) / 2 ^ n)"
    using solve_firm_unprofitable(1)[OF f(1-3) mx f(4-6) unprofitable_model_unprofitable f(7,8)]
    by (simp add: f(9))
  show "\<not> free_entry_met (unprofitable_model n) (100 - (9999 / 100) / 2 ^ n)"
    using solve_firm_unprofitable(2)[OF f(1-3) mx f(4-6) unprofitable_model_unprofitable f(7,8)]
    by (simp add: f(9))
qed

lemma entrant_value_unprofitable_model:
  assumes "0 < n"
  shows "entrant_value (unprofitable_model n) 100 < ce (unprofitable_model n)"
proof -
  note f = unprofitable_model_facts[of n]
  have mx: "0 < maxit (unprofitable_model n)" using assms f(9) by simp
  show ?thesis
    using entrant_value_unprofitable[OF f(1-3) mx f(4-6) unprofitable_model_unprofitable,
        of 100] f(7) by simp
qed

lemma vf_stop_not_converged:
  assumes "\<not> vf_converged m fp"
  shows "vf_stop_from m fp 0 (maxit m) = maxit m"
proof -
  have "find (vf_converged_at m fp) [Suc 0..<Suc (maxit m)] = None"
    using assms unfolding vf_converged_def list_ex_iff find_None_iff by blast
  then show ?thesis by (simp add: vf_stop_from_def)
qed

lemma price_stop_cases:
  assumes "0 < maxit m"
  shows "price_converged m \<Longrightarrow> free_entry_met m (bisection_spec m)"
    and "\<not> price_converged m \<Longrightarrow> bisection_spec m = price_candidate m (maxit m - 1)"
    and "\<not> price_converged m \<Longrightarrow> \<not> free_entry_met m (bisection_spec m)"
proof -
  let ?P = "\<lambda>k. free_entry_met m (price_candidate m k)"
  {
    assume "price_converged m"
    then obtain k where "find ?P [0..<maxit m] = Some k"
      unfolding price_converged_def list_ex_iff
      by (cases "find ?P [0..<maxit m]") (auto simp: find_None_iff)
    moreover from this have "?P k" by (auto simp: find_Some_iff)
    ultimately show "free_entry_met m (bisection_spec m)"
      by (simp add: bisection_spec_def price_stop_from_def)
  }
  {
    assume nc: "\<not> price_converged m"
    then have none: "find ?P [0..<maxit m] = None"
      unfolding price_converged_def list_ex_iff find_None_iff by blast
    then show eq: "bisection_spec m = price_candidate m (maxit m - 1)"
      by (simp add: bisection_spec_def price_stop_from_def)
    have "maxit m - 1 \<in> set [0..<maxit m]" using assms by simp
    then have "\<not> ?P (maxit m - 1)"
      using nc unfolding price_converged_def list_ex_iff by blast
    then show "\<not> free_entry_met m (bisection_spec m)" using eq by simp
  }
qed

section \<open>Rounding to the nearest double\<close>

text \<open>
  On the non-negative reals \<open>fl64\<close> is monotone and idempotent, it fixes every
  \<open>k * 2^e\<close> with \<open>0 \<le> k \<le> 2^53\<close> and \<open>e \<ge> - 1074\<close>, and twice a double is a double.
  Within one binade the spacing is known: \<open>fl64_binade\<close>.
\<close>

lemma rne_of_int [simp]: "rne (of_int k) = k"
  by (simp add: rne_def)

lemma rne_0 [simp]: "rne 0 = 0"
  by (simp add: rne_def)

lemma rne_bounds: "x - 1 / 2 \<le> of_int (rne x)" "of_int (rne x) \<le> x + 1 / 2"
  unfolding rne_def Let_def by (auto; linarith)+

lemma rne_floor: "\<lfloor>x\<rfloor> \<le> rne x" "rne x \<le> \<lfloor>x\<rfloor> + 1"
  unfolding rne_def Let_def by auto

lemma rne_mono:
  assumes "x \<le> y"
  shows "rne x \<le> rne y"
proof (cases "\<lfloor>x\<rfloor> = \<lfloor>y\<rfloor>")
  case True
  then show ?thesis using assms unfolding rne_def Let_def by auto
next
  case False
  then have "\<lfloor>x\<rfloor> < \<lfloor>y\<rfloor>" using assms floor_mono[OF assms] by simp
  then show ?thesis using rne_floor(2)[of x] rne_floor(1)[of y] by linarith
qed


lemma two_powi_pos [simp]: "0 < (2::real) powi e"
  by (simp add: zero_less_power_int)

lemma scale_two_power:
  fixes x :: real
  shows "x * 2 ^ k < 2 powi b \<Longrightarrow> x < 2 powi (b - int k)"
    and "2 powi b \<le> x * 2 ^ k \<Longrightarrow> 2 powi (b - int k) \<le> x"
  by (simp_all add: power_int_diff field_simps)

lemma ulp_exp_ge: "- 1074 \<le> ulp_exp x"
  by (simp add: ulp_exp_def)

lemma ulp_exp_upper:
  assumes "0 \<le> x"
  shows "x < 2 powi (ulp_exp x + 53)"
proof -
  define n where "n = \<lfloor>x * 2 ^ 1074\<rfloor>"
  have n0: "0 \<le> n" unfolding n_def using assms by simp
  have "n < 2 ^ nat (bitlen n)"
  proof (cases "n = 0")
    case True
    then show ?thesis by simp
  next
    case False
    then show ?thesis using bitlen_bounds[of n] n0 by simp
  qed
  then have "n + 1 \<le> 2 ^ nat (bitlen n)" by simp
  then have "real_of_int (n + 1) \<le> real_of_int (2 ^ nat (bitlen n))"
    by (rule of_int_le_iff[THEN iffD2])
  moreover have "x * 2 ^ 1074 < real_of_int (n + 1)"
    unfolding n_def by linarith
  ultimately have "x * 2 ^ 1074 < 2 ^ nat (bitlen n)" by simp
  also have "\<dots> = 2 powi (bitlen n)"
    using bitlen_nonneg[of n] by (simp add: power_int_def)
  finally have "x < 2 powi (bitlen n - int 1074)"
    by (rule scale_two_power(1))
  also have "\<dots> \<le> 2 powi (ulp_exp x + 53)"
    using assms by (intro power_int_increasing) (simp_all add: ulp_exp_def n_def)
  finally show ?thesis .
qed

lemma ulp_exp_lower:
  assumes "0 \<le> x" "- 1074 < ulp_exp x"
  shows "2 powi (ulp_exp x + 52) \<le> x"
proof -
  define n where "n = \<lfloor>x * 2 ^ 1074\<rfloor>"
  have n0: "0 \<le> n" unfolding n_def using assms by simp
  have e: "ulp_exp x = bitlen n - 1127"
    using assms unfolding ulp_exp_def n_def by simp
  then have b: "53 < bitlen n" using assms(2) by simp
  then have "n \<noteq> 0" by auto
  then have "2 ^ nat (bitlen n - 1) \<le> n" using bitlen_bounds[of n] n0 by simp
  then have "real_of_int (2 ^ nat (bitlen n - 1)) \<le> real_of_int n"
    by (rule of_int_le_iff[THEN iffD2])
  also have "\<dots> \<le> x * 2 ^ 1074" unfolding n_def by simp
  finally have "2 ^ nat (bitlen n - 1) \<le> x * 2 ^ 1074" by simp
  moreover have "(2::real) ^ nat (bitlen n - 1) = 2 powi (bitlen n - 1)"
    using b by (simp add: power_int_def)
  ultimately have "2 powi (bitlen n - 1) \<le> x * 2 ^ 1074" by simp
  then have "2 powi (bitlen n - 1 - int 1074) \<le> x"
    by (rule scale_two_power(2))
  then show ?thesis by (simp add: e)
qed

lemma ulp_exp_mono:
  assumes "0 \<le> x" "x \<le> y"
  shows "ulp_exp x \<le> ulp_exp y"
proof -
  have "\<lfloor>x * 2 ^ 1074\<rfloor> \<le> \<lfloor>y * 2 ^ 1074\<rfloor>"
    using assms by (intro floor_mono) simp
  then have "bitlen \<lfloor>x * 2 ^ 1074\<rfloor> \<le> bitlen \<lfloor>y * 2 ^ 1074\<rfloor>"
    unfolding bitlen_def using floorlog_mono[of "nat \<lfloor>x * 2 ^ 1074\<rfloor>" "nat \<lfloor>y * 2 ^ 1074\<rfloor>" 2]
    by simp
  then show ?thesis using assms by (simp add: ulp_exp_def)
qed

lemma ulp_exp_eqI:
  assumes "2 powi (e + 52) \<le> x" "x < 2 powi (e + 53)" "- 1074 \<le> e"
  shows "ulp_exp x = e"
proof (rule ccontr)
  assume ne: "ulp_exp x \<noteq> e"
  have x0: "0 \<le> x" using assms(1) two_powi_pos[of "e + 52"] by linarith
  show False
  proof (cases "ulp_exp x < e")
    case True
    then have "(2::real) powi (ulp_exp x + 53) \<le> 2 powi (e + 52)"
      by (intro power_int_increasing) simp_all
    then show False using ulp_exp_upper[OF x0] assms(1) by linarith
  next
    case False
    then have gt: "e < ulp_exp x" using ne by simp
    then have "- 1074 < ulp_exp x" using assms(3) by simp
    then have "2 powi (ulp_exp x + 52) \<le> x" by (rule ulp_exp_lower[OF x0])
    moreover have "(2::real) powi (e + 53) \<le> 2 powi (ulp_exp x + 52)"
      using gt by (intro power_int_increasing) simp_all
    ultimately show False using assms(2) by linarith
  qed
qed

lemma ulp_exp_subnormal:
  assumes "0 \<le> x" "x < 2 powi (- 1022)"
  shows "ulp_exp x = - 1074"
proof (rule ccontr)
  assume "ulp_exp x \<noteq> - 1074"
  then have gt: "- 1074 < ulp_exp x" using ulp_exp_ge[of x] by simp
  then have "2 powi (ulp_exp x + 52) \<le> x" by (rule ulp_exp_lower[OF assms(1)])
  moreover have "(2::real) powi (- 1022) \<le> 2 powi (ulp_exp x + 52)"
    using gt by (intro power_int_increasing) simp_all
  ultimately show False using assms(2) by linarith
qed


lemma fl64_binade:
  assumes "2 powi (e + 52) \<le> x" "x < 2 powi (e + 53)" "- 1074 \<le> e"
  shows "fl64 x = of_int (rne (x / 2 powi e)) * 2 powi e"
  by (simp add: fl64_def ulp_exp_eqI[OF assms])

lemma fl64_exact:
  assumes "x = of_int j * 2 powi ulp_exp x"
  shows "fl64 x = x"
proof -
  have "x / 2 powi ulp_exp x = of_int j"
    using assms by (simp add: field_simps)
  then show ?thesis using assms by (simp add: fl64_def)
qed

lemma fl64_representable:
  assumes "0 \<le> k" "k \<le> 2 ^ 53" "- 1074 \<le> e"
  shows "fl64 (of_int k * 2 powi e) = of_int k * 2 powi e"
proof -
  define z :: real where "z = of_int k * 2 powi e"
  have z0: "0 \<le> z" unfolding z_def using assms(1) by simp
  have "\<exists>j. z = of_int j * 2 powi ulp_exp z"
  proof (cases "k = 2 ^ 53")
    case True
    have z: "z = 2 powi (e + 53)"
      unfolding z_def True by (simp add: power_int_add)
    have "ulp_exp z = e + 1"
      by (rule ulp_exp_eqI) (use assms(3) in \<open>simp_all add: z power_int_add\<close>)
    moreover have "z = of_int (2 ^ 52) * 2 powi (e + 1)"
      unfolding z by (simp add: power_int_add)
    ultimately show ?thesis by metis
  next
    case False
    then have k: "k < 2 ^ 53" using assms(2) by simp
    have le: "ulp_exp z \<le> e"
    proof (rule ccontr)
      assume "\<not> ulp_exp z \<le> e"
      then have gt: "e < ulp_exp z" by simp
      then have "- 1074 < ulp_exp z" using assms(3) by simp
      then have "2 powi (ulp_exp z + 52) \<le> z" by (rule ulp_exp_lower[OF z0])
      moreover have "(2::real) powi (e + 53) \<le> 2 powi (ulp_exp z + 52)"
        using gt by (intro power_int_increasing) simp_all
      moreover have "z < 2 powi (e + 53)"
      proof -
        have "real_of_int k < real_of_int (2 ^ 53)"
          using k by (rule of_int_less_iff[THEN iffD2])
        then have "real_of_int k * 2 powi e < real_of_int (2 ^ 53) * 2 powi e"
          by (intro mult_strict_right_mono) simp_all
        then show ?thesis unfolding z_def by (simp add: power_int_add)
      qed
      ultimately show False by linarith
    qed
    define d where "d = nat (e - ulp_exp z)"
    have "e = ulp_exp z + int d" unfolding d_def using le by simp
    then have "(2::real) powi e = 2 ^ d * 2 powi ulp_exp z"
      by (simp add: power_int_add)
    then have "z = of_int (k * 2 ^ d) * 2 powi ulp_exp z"
      unfolding z_def by simp
    then show ?thesis by blast
  qed
  then obtain j where "z = of_int j * 2 powi ulp_exp z" by blast
  then have "fl64 z = z" by (rule fl64_exact)
  then show ?thesis unfolding z_def .
qed

lemma fl64_mantissa:
  assumes "0 \<le> x"
  shows "0 \<le> rne (x / 2 powi ulp_exp x)" "rne (x / 2 powi ulp_exp x) \<le> 2 ^ 53"
    and "- 1074 < ulp_exp x \<Longrightarrow> 2 ^ 52 \<le> rne (x / 2 powi ulp_exp x)"
proof -
  let ?E = "ulp_exp x"
  have "0 \<le> x / 2 powi ?E" using assms by simp
  then have "rne (of_int 0) \<le> rne (x / 2 powi ?E)"
    by (intro rne_mono) simp
  then show "0 \<le> rne (x / 2 powi ?E)" by simp
  have "x \<le> 2 powi (?E + 53)" using ulp_exp_upper[OF assms] by simp
  then have "x / 2 powi ?E \<le> 2 ^ 53"
    by (simp add: power_int_add field_simps)
  then have "rne (x / 2 powi ?E) \<le> rne (of_int (2 ^ 53))"
    by (intro rne_mono) simp
  then show "rne (x / 2 powi ?E) \<le> 2 ^ 53" by (simp only: rne_of_int)
  assume "- 1074 < ?E"
  then have "2 powi (?E + 52) \<le> x" by (rule ulp_exp_lower[OF assms])
  then have "2 ^ 52 \<le> x / 2 powi ?E"
    by (simp add: power_int_add field_simps)
  then have "rne (of_int (2 ^ 52)) \<le> rne (x / 2 powi ?E)"
    by (intro rne_mono) simp
  then show "2 ^ 52 \<le> rne (x / 2 powi ?E)" by (simp only: rne_of_int)
qed

lemma fl64_idem:
  assumes "0 \<le> x"
  shows "fl64 (fl64 x) = fl64 x"
  unfolding fl64_def[of x]
  using fl64_mantissa(1,2)[OF assms] ulp_exp_ge[of x] by (rule fl64_representable)

lemma fl64_twice:
  assumes "0 \<le> x" "fl64 x = x"
  shows "fl64 (2 * x) = 2 * x"
proof -
  let ?k = "rne (x / 2 powi ulp_exp x)"
  have "x = of_int ?k * 2 powi ulp_exp x"
    using assms(2) by (simp add: fl64_def)
  then have "2 * x = of_int ?k * 2 powi (ulp_exp x + 1)"
    by (simp add: power_int_add)
  moreover have "fl64 (of_int ?k * 2 powi (ulp_exp x + 1)) = of_int ?k * 2 powi (ulp_exp x + 1)"
    using fl64_mantissa(1,2)[OF assms(1)] ulp_exp_ge[of x]
    by (intro fl64_representable) simp_all
  ultimately show ?thesis by simp
qed

lemma fl64_mono:
  assumes "0 \<le> x" "x \<le> y"
  shows "fl64 x \<le> fl64 y"
proof (cases "ulp_exp x = ulp_exp y")
  case True
  have "x / 2 powi ulp_exp y \<le> y / 2 powi ulp_exp y"
    using assms(2) by (simp add: divide_right_mono)
  then have "rne (x / 2 powi ulp_exp y) \<le> rne (y / 2 powi ulp_exp y)"
    by (rule rne_mono)
  then have "real_of_int (rne (x / 2 powi ulp_exp y)) \<le> real_of_int (rne (y / 2 powi ulp_exp y))"
    by (rule of_int_le_iff[THEN iffD2])
  then show ?thesis
    unfolding fl64_def True by (intro mult_right_mono) simp_all
next
  case False
  have y0: "0 \<le> y" using assms by simp
  have lt: "ulp_exp x < ulp_exp y"
    using False ulp_exp_mono[OF assms] by simp
  then have sub: "- 1074 < ulp_exp y" using ulp_exp_ge[of x] by simp
  have "real_of_int (rne (x / 2 powi ulp_exp x)) \<le> real_of_int (2 ^ 53)"
    using fl64_mantissa(2)[OF assms(1)] by (rule of_int_le_iff[THEN iffD2])
  then have "fl64 x \<le> real_of_int (2 ^ 53) * 2 powi ulp_exp x"
    unfolding fl64_def by (intro mult_right_mono) simp_all
  also have "\<dots> = 2 powi (ulp_exp x + 53)"
    by (simp add: power_int_add)
  also have "\<dots> \<le> 2 powi (ulp_exp y + 52)"
    using lt by (intro power_int_increasing) simp_all
  also have "\<dots> = real_of_int (2 ^ 52) * 2 powi ulp_exp y"
    by (simp add: power_int_add)
  also have "\<dots> \<le> fl64 y"
  proof -
    have "real_of_int (2 ^ 52) \<le> real_of_int (rne (y / 2 powi ulp_exp y))"
      using fl64_mantissa(3)[OF y0 sub] by (rule of_int_le_iff[THEN iffD2])
    then show ?thesis
      unfolding fl64_def by (intro mult_right_mono) simp_all
  qed
  finally show ?thesis .
qed

lemma fl64_nonneg: "0 \<le> x \<Longrightarrow> 0 \<le> fl64 x"
  using fl64_mantissa(1)[of x] by (simp add: fl64_def)

lemma fl64_100 [simp]: "fl64 100 = 100"
  using fl64_representable[of 25 2] by simp

lemma fl64_literal: "fl64 (1 / 100) = 5764607523034235 / 2 ^ 59"
proof -
  have "fl64 (1 / 100) = of_int (rne ((1 / 100) / 2 powi (- 59))) * 2 powi (- 59)"
    by (rule fl64_binade) simp_all
  moreover have "rne ((1 / 100) / 2 powi (- 59)) = 5764607523034235"
    by (simp add: rne_def Let_def)
  ultimately show ?thesis by simp
qed

section \<open>The price bisection in double precision\<close>

text \<open>
  The rounded midpoint of two doubles lies between them. When the lower endpoint is raised
  at every iteration, the distance of the candidate to \<open>pmax = 100\<close>, counted in units of
  \<open>2^-46\<close>, is an integer that is at least halved (up to rounding) by every step, and a
  distance of one unit rounds to zero: the candidate is \<open>100\<close> after 54 steps.
\<close>

lemma midpoint_double:
  assumes "0 \<le> a" "a \<le> b" "fl64 a = a" "fl64 b = b"
  shows "a \<le> fl64 (fl64 (a + b) / 2)" "fl64 (fl64 (a + b) / 2) \<le> b"
    and "fl64 (fl64 (fl64 (a + b) / 2)) = fl64 (fl64 (a + b) / 2)"
    and "0 \<le> fl64 (fl64 (a + b) / 2)"
proof -
  have b0: "0 \<le> b" using assms by simp
  have "fl64 (2 * a) \<le> fl64 (a + b)"
    using assms by (intro fl64_mono) simp_all
  then have lo: "2 * a \<le> fl64 (a + b)"
    using fl64_twice[OF assms(1,3)] by simp
  have "fl64 (a + b) \<le> fl64 (2 * b)"
    using assms by (intro fl64_mono) simp_all
  then have hi: "fl64 (a + b) \<le> 2 * b"
    using fl64_twice[OF b0 assms(4)] by simp
  have h0: "0 \<le> fl64 (a + b) / 2" using lo assms(1) by simp
  have "fl64 a \<le> fl64 (fl64 (a + b) / 2)"
    using lo assms(1) by (intro fl64_mono) simp_all
  then show 1: "a \<le> fl64 (fl64 (a + b) / 2)" using assms(3) by simp
  have "fl64 (fl64 (a + b) / 2) \<le> fl64 b"
    using hi h0 by (intro fl64_mono) simp_all
  then show "fl64 (fl64 (a + b) / 2) \<le> b" using assms(4) by simp
  show "fl64 (fl64 (fl64 (a + b) / 2)) = fl64 (fl64 (a + b) / 2)"
    using h0 by (rule fl64_idem)
  show "0 \<le> fl64 (fl64 (a + b) / 2)" using 1 assms(1) by simp
qed

lemma fl64_literal_bounds: "0 \<le> fl64 (1 / 100)" "fl64 (1 / 100) \<le> 100"
  "fl64 (fl64 (1 / 100)) = fl64 (1 / 100)" "1 / 100 < fl64 (1 / 100)"
  "fl64 (1 / 100) < 100"
proof -
  show "fl64 (1 / 100) < 100" by (simp add: fl64_literal)
  show "0 \<le> fl64 (1 / 100)" by (simp add: fl64_literal)
  show "fl64 (1 / 100) \<le> 100" by (simp add: fl64_literal)
  show "fl64 (fl64 (1 / 100)) = fl64 (1 / 100)" by (rule fl64_idem) simp
  show "1 / 100 < fl64 (1 / 100)" by (simp add: fl64_literal)
qed

lemma rne_tie_below_200: "rne (7036874417766400 - 1 / 2) = 7036874417766400"
  by (simp add: rne_def Let_def)

lemma raise_rounded:
  assumes "28 \<le> p" "p \<le> 100"
  shows "\<exists>j::int. fl64 (fl64 (p + 100) / 2) = 100 - of_int j / 2 ^ 46 \<and> 0 \<le> j \<and>
           of_int j \<le> (100 - p) * 2 ^ 45 + 1 / 2 \<and> ((100 - p) * 2 ^ 46 \<le> 1 \<longrightarrow> j = 0)"
proof -
  define x where "x = (p + 100) / 2 powi (- 45)"
  define r where "r = rne x"
  have x: "x = (p + 100) * 2 ^ 45"
    unfolding x_def by (simp add: power_int_minus field_simps)
  have f1: "fl64 (p + 100) = of_int r * 2 powi (- 45)"
    unfolding r_def x_def by (rule fl64_binade) (use assms in simp_all)
  have "x \<le> of_int 7036874417766400" unfolding x using assms by simp
  then have "r \<le> rne (of_int 7036874417766400)" unfolding r_def by (rule rne_mono)
  then have r_hi: "r \<le> 7036874417766400" by (simp only: rne_of_int)
  have "of_int 4503599627370496 \<le> x" unfolding x using assms by simp
  then have "rne (of_int 4503599627370496) \<le> r" unfolding r_def by (rule rne_mono)
  then have r_lo: "4503599627370496 \<le> r" by (simp only: rne_of_int)
  define j where "j = 7036874417766400 - r"
  have a: "fl64 (p + 100) / 2 = of_int r * 2 powi (- 46)"
    unfolding f1 by (simp add: power_int_minus)
  have b: "fl64 (of_int r * 2 powi (- 46)) = of_int r * 2 powi (- 46)"
    using r_lo r_hi by (intro fl64_representable) simp_all
  have c: "of_int r * 2 powi (- 46) = 100 - real_of_int j / 2 ^ 46"
    unfolding j_def by (simp add: power_int_minus field_simps)
  have "fl64 (fl64 (p + 100) / 2) = fl64 (of_int r * 2 powi (- 46))"
    by (simp only: a)
  also have "\<dots> = of_int r * 2 powi (- 46)" by (rule b)
  also have "\<dots> = 100 - real_of_int j / 2 ^ 46" by (rule c)
  finally have 1: "fl64 (fl64 (p + 100) / 2) = 100 - of_int j / 2 ^ 46" .
  have 2: "0 \<le> j" unfolding j_def using r_hi by simp
  have "x - 1 / 2 \<le> of_int r" unfolding r_def by (rule rne_bounds)
  then have 3: "of_int j \<le> (100 - p) * 2 ^ 45 + 1 / 2"
    unfolding j_def x by simp
  have 4: "j = 0" if "(100 - p) * 2 ^ 46 \<le> 1"
  proof -
    have "7036874417766400 - 1 / 2 \<le> x" unfolding x using that by simp
    then have "rne (7036874417766400 - 1 / 2) \<le> r" unfolding r_def by (rule rne_mono)
    then have "7036874417766400 \<le> r" unfolding rne_tie_below_200 .
    then show ?thesis unfolding j_def using r_hi by simp
  qed
  from 1 2 3 4 show ?thesis by blast
qed

lemma unprofitable_model_raise:
  assumes "0 < N"
    and "1 / 100 < fl64 (fl64 (pmin + pmax) / 2)" "fl64 (fl64 (pmin + pmax) / 2) \<le> 100"
  shows "price_loop_double (unprofitable_model N) (Suc n) pmin pmax pr =
         price_loop_double (unprofitable_model N) n (fl64 (fl64 (pmin + pmax) / 2)) pmax
           (Some (fl64 (fl64 (pmin + pmax) / 2)))"
proof -
  let ?m = "unprofitable_model N"
  let ?q = "fl64 (fl64 (pmin + pmax) / 2)"
  note f = unprofitable_model_facts[of N]
  have mx: "0 < maxit ?m" using assms(1) f(9) by simp
  obtain V fp fo pn where sv: "solve_vf ?m ?q = Inr (V, fp, fo, pn)"
      and ev: "entry_condition ?m V = entrant_value ?m ?q"
    using solve_vf_entrant[OF f(1-3)] by blast
  have "entrant_value ?m ?q \<le> 0"
    using entrant_value_unprofitable[OF f(1-3) mx f(4-6) unprofitable_model_unprofitable
        assms(2,3)] .
  then have "\<not> \<bar>entry_condition ?m V - ce ?m\<bar> < tol ?m" "entry_condition ?m V < ce ?m"
    using f(7,8) ev by simp_all
  then show ?thesis
    by (simp add: sv Let_def)
qed

lemma fl64_200 [simp]: "fl64 200 = 200"
  using fl64_representable[of 25 3] by simp

lemma fl64_50 [simp]: "fl64 50 = 50"
  using fl64_representable[of 25 1] by simp

lemma unprofitable_model_stay:
  assumes "0 < N"
  shows "price_loop_double (unprofitable_model N) n 100 100 (Some 100) = Inr 100"
proof (induction n)
  case 0
  show ?case by simp
next
  case (Suc n)
  have "price_loop_double (unprofitable_model N) (Suc n) 100 100 (Some 100) =
        price_loop_double (unprofitable_model N) n (fl64 (fl64 (100 + 100) / 2)) 100
           (Some (fl64 (fl64 (100 + 100) / 2)))"
    by (rule unprofitable_model_raise[OF assms]) simp_all
  then show ?case using Suc by simp
qed

lemma unprofitable_model_last:
  assumes "0 < N" "28 \<le> p" "p \<le> 100" "(100 - p) * 2 ^ 46 \<le> 1"
  shows "price_loop_double (unprofitable_model N) (Suc n) p 100 pr = Inr 100"
proof -
  have q: "fl64 (fl64 (p + 100) / 2) = 100"
    using raise_rounded[OF assms(2,3)] assms(4) by auto
  have "price_loop_double (unprofitable_model N) (Suc n) p 100 pr =
        price_loop_double (unprofitable_model N) n (fl64 (fl64 (p + 100) / 2)) 100
           (Some (fl64 (fl64 (p + 100) / 2)))"
    by (rule unprofitable_model_raise[OF assms(1)]) (simp_all add: q)
  then show ?thesis using unprofitable_model_stay[OF assms(1)] by (simp add: q)
qed

lemma unprofitable_model_reaches_pmax:
  assumes "0 < N" "28 \<le> p" "p \<le> 100" "(100 - p) * 2 ^ 46 \<le> 2 ^ k" "k < n"
  shows "price_loop_double (unprofitable_model N) n p 100 pr = Inr 100"
  using assms(2-5)
proof (induction k arbitrary: p n pr)
  case 0
  then obtain n' where n: "n = Suc n'" by (cases n) auto
  show ?case unfolding n
    using unprofitable_model_last[OF assms(1) "0.prems"(1,2)] "0.prems"(3) by simp
next
  case (Suc k)
  then obtain n' where n: "n = Suc n'" by (cases n) auto
  obtain j :: int where q: "fl64 (fl64 (p + 100) / 2) = 100 - of_int j / 2 ^ 46"
      and j0: "0 \<le> j" and jle: "of_int j \<le> (100 - p) * 2 ^ 45 + 1 / 2"
    using raise_rounded[OF Suc.prems(1,2)] by blast
  let ?q = "fl64 (fl64 (p + 100) / 2)"
  have "real_of_int j \<le> 2 ^ k + 1 / 2"
    using jle Suc.prems(3) by simp
  then have "real_of_int j < real_of_int (2 ^ k + 1)" by simp
  then have "j < 2 ^ k + 1" by (rule of_int_less_iff[THEN iffD1])
  then have "j \<le> 2 ^ k" by simp
  then have "real_of_int j \<le> real_of_int (2 ^ k)" by (rule of_int_le_iff[THEN iffD2])
  then have jk: "real_of_int j \<le> 2 ^ k" by simp
  have "real_of_int j \<le> 72 * 2 ^ 45 + 1 / 2"
    using jle Suc.prems(1) by simp
  then have "real_of_int j / 2 ^ 46 \<le> 37"
    by (simp add: field_simps)
  moreover have "0 \<le> real_of_int j / 2 ^ 46" using j0 by simp
  ultimately have qb: "28 \<le> ?q" "?q \<le> 100" "1 / 100 < ?q"
    unfolding q by simp_all
  have d: "(100 - ?q) * 2 ^ 46 \<le> 2 ^ k"
    unfolding q using jk by simp
  have "price_loop_double (unprofitable_model N) (Suc n') p 100 pr =
        price_loop_double (unprofitable_model N) n' ?q 100 (Some ?q)"
    by (rule unprofitable_model_raise[OF assms(1) qb(3,2)])
  also have "\<dots> = Inr 100"
    using Suc.prems(4) n by (intro Suc.IH[OF qb(1,2) d]) simp
  finally show ?case unfolding n .
qed

lemma solve_firm_double_unprofitable_model:
  assumes "53 < N"
  shows "solve_firm_double (unprofitable_model N) = Inr 100"
proof -
  let ?q = "fl64 (fl64 (fl64 (1 / 100) + 100) / 2)"
  obtain n where n: "N = Suc n" "52 < n" using assms by (cases N) auto
  have N0: "0 < N" using assms by simp
  have "fl64 100 \<le> fl64 (fl64 (1 / 100) + 100)"
    using fl64_literal_bounds(1) by (intro fl64_mono) simp_all
  then have "50 \<le> fl64 (fl64 (1 / 100) + 100) / 2" by simp
  then have "fl64 50 \<le> ?q" by (intro fl64_mono) simp_all
  then have lo: "50 \<le> ?q" by simp
  have hi: "?q \<le> 100"
    by (rule midpoint_double(2)) (simp_all add: fl64_literal_bounds)
  have d: "(100 - ?q) * 2 ^ 46 \<le> 2 ^ 52"
    using lo by simp
  have "solve_firm_double (unprofitable_model N) =
        price_loop_double (unprofitable_model N) (Suc n) (fl64 (1 / 100)) 100 None"
    by (simp add: solve_firm_double_def unprofitable_model_facts(9) n(1))
  also have "\<dots> = price_loop_double (unprofitable_model N) n ?q 100 (Some ?q)"
    by (rule unprofitable_model_raise[OF N0]) (use lo hi in simp_all)
  also have "\<dots> = Inr 100"
    by (rule unprofitable_model_reaches_pmax[OF N0 _ hi d n(2)]) (use lo in simp)
  finally show ?thesis .
qed

lemma double_above_literal:
  assumes "fl64 b = b" "fl64 (1 / 100) < b"
  shows "5764607523034236 / 2 ^ 59 \<le> b"
proof (rule ccontr)
  assume "\<not> 5764607523034236 / 2 ^ 59 \<le> b"
  then have lt: "b < 5764607523034236 / 2 ^ 59" by simp
  have gt: "5764607523034235 / 2 ^ 59 < b" using assms(2) by (simp add: fl64_literal)
  define k where "k = rne (b / 2 powi (- 59))"
  have "fl64 b = of_int k * 2 powi (- 59)"
    unfolding k_def by (rule fl64_binade) (use lt gt in simp_all)
  then have "b = of_int k / 2 ^ 59"
    using assms(1) by (simp add: power_int_minus field_simps)
  then have "real_of_int 5764607523034235 < real_of_int k" "real_of_int k < real_of_int 5764607523034236"
    using lt gt by (simp_all add: field_simps)
  then have "5764607523034235 < k" "k < 5764607523034236"
    by (simp_all only: of_int_less_iff)
  then show False by simp
qed

lemma candidate_above_literal:
  assumes "fl64 b = b" "fl64 (1 / 100) < b"
  shows "fl64 (1 / 100) < fl64 (fl64 (fl64 (1 / 100) + b) / 2)"
proof -
  have b: "5764607523034236 / 2 ^ 59 \<le> b"
    using assms by (rule double_above_literal)
  have "fl64 (11529215046068471 / 2 ^ 59)
        = of_int (rne ((11529215046068471 / 2 ^ 59) / 2 powi (- 58))) * 2 powi (- 58)"
    by (rule fl64_binade) simp_all
  moreover have "rne ((11529215046068471 / 2 ^ 59) / 2 powi (- 58)) = 5764607523034236"
    by (simp add: rne_def Let_def)
  ultimately have s0: "fl64 (11529215046068471 / 2 ^ 59) = 5764607523034236 / 2 ^ 58"
    by simp
  have "fl64 (11529215046068471 / 2 ^ 59) \<le> fl64 (fl64 (1 / 100) + b)"
    using b by (intro fl64_mono) (simp_all add: fl64_literal)
  then have h: "5764607523034236 / 2 ^ 59 \<le> fl64 (fl64 (1 / 100) + b) / 2"
    unfolding s0 by simp
  have "fl64 (of_int 5764607523034236 * 2 powi (- 59)) = of_int 5764607523034236 * 2 powi (- 59)"
    by (rule fl64_representable) simp_all
  then have c: "fl64 (5764607523034236 / 2 ^ 59) = 5764607523034236 / 2 ^ 59"
    by (simp add: power_int_minus)
  have "fl64 (5764607523034236 / 2 ^ 59) \<le> fl64 (fl64 (fl64 (1 / 100) + b) / 2)"
    using h by (intro fl64_mono) simp_all
  then show ?thesis unfolding c by (simp add: fl64_literal)
qed

lemma price_loop_double_inside:
  assumes "price_loop_double m n pmin pmax pr = Inr p"
    and "fl64 (1 / 100) \<le> pmin" "pmin \<le> pmax" "fl64 (1 / 100) < pmax" "pmax \<le> 100"
    and "fl64 pmin = pmin" "fl64 pmax = pmax"
    and "\<And>q. pr = Some q \<Longrightarrow> fl64 (1 / 100) < q \<and> q \<le> 100"
  shows "fl64 (1 / 100) < p \<and> p \<le> 100"
  using assms
proof (induction n arbitrary: pmin pmax pr)
  case 0
  then show ?case by (cases pr) auto
next
  case (Suc n)
  let ?q = "fl64 (fl64 (pmin + pmax) / 2)"
  have pmin0: "0 \<le> pmin" using Suc.prems(2) fl64_literal_bounds(1) by simp
  note q = midpoint_double[OF pmin0 Suc.prems(3,6,7)]
  have above: "fl64 (1 / 100) < ?q"
  proof (cases "pmin = fl64 (1 / 100)")
    case True
    show ?thesis unfolding True using Suc.prems(7,4) by (rule candidate_above_literal)
  next
    case False
    then show ?thesis using Suc.prems(2) q(1) by simp
  qed
  obtain V fp fo pn where sv: "solve_vf m ?q = Inr (V, fp, fo, pn)"
    using Suc.prems(1) by (cases "solve_vf m ?q") (auto simp: Let_def)
  show ?case
  proof (cases "\<bar>entry_condition m V - ce m\<bar> < tol m")
    case True
    then have "p = ?q" using Suc.prems(1) sv by (simp add: Let_def)
    then show ?thesis using q above Suc.prems(5) by simp
  next
    case False
    show ?thesis
    proof (cases "entry_condition m V < ce m")
      case True
      then have "price_loop_double m n ?q pmax (Some ?q) = Inr p"
        using Suc.prems(1) sv False by (simp add: Let_def)
      then show ?thesis
        using q above Suc.prems(2-7) by (intro Suc.IH[of ?q pmax "Some ?q"]) auto
    next
      case nb: False
      then have "price_loop_double m n pmin ?q (Some ?q) = Inr p"
        using Suc.prems(1) sv False by (simp add: Let_def)
      then show ?thesis
        using q above Suc.prems(2-7) by (intro Suc.IH[of pmin ?q "Some ?q"]) auto
    qed
  qed
qed

lemma solve_firm_double_inside:
  assumes "solve_firm_double m = Inr p"
  shows "fl64 (1 / 100) < p \<and> p \<le> 100"
  using assms unfolding solve_firm_double_def
  by (rule price_loop_double_inside) (simp_all add: fl64_literal_bounds)

section \<open>Free entry: the price returned\<close>

text \<open>
  C10, as the code has it. Whenever \<^verbatim>\<open>solve_firm\<close> returns a price, that price lies in
  the initial search interval with its upper end included, \<open>0.01 < price \<le> 100\<close> (with
  \<open>0.01\<close> the double of that literal), whether or not the free-entry tolerance was met:
  every candidate is the midpoint of the current interval rounded to the nearest double,
  so \<open>pmin \<le> price \<le> pmax\<close> at every iteration, and the candidate above the double
  \<open>0.01\<close> never rounds onto it.
\<close>

theorem solve_firm_double_price_inside:
  assumes "solve_firm_double m = Inr p"
  shows "fl64 (1 / 100) < p \<and> p \<le> 100"
  using assms by (rule solve_firm_double_inside)

theorem solve_firm_double_price_inside_witness:
  "solve_firm_double (unprofitable_model 2000) = Inr 100 \<and>
   fl64 (1 / 100) < 100 \<and> (100::real) \<le> 100"
proof -
  have s: "solve_firm_double (unprofitable_model 2000) = Inr 100"
    by (rule solve_firm_double_unprofitable_model) simp
  from solve_firm_double_price_inside[OF s] s show ?thesis by blast
qed

text \<open>
  The claim C10 is false as stated: with a fixed cost that no price of the interval covers,
  the lower endpoint is raised at every iteration; from the 54th candidate on \<open>pmin\<close> and
  \<open>pmax = 100\<close> are equal or adjacent doubles, their midpoint rounds to \<open>100\<close>, and the
  price returned after 2000 iterations is \<open>100\<close> itself.
\<close>

theorem price_reaches_pmax_counterexample:
  "solve_firm_double (unprofitable_model 2000) = Inr 100 \<and> \<not> (100::real) < 100"
  using solve_firm_double_unprofitable_model[of 2000] by simp

text \<open>
  C1, as the code has it. \<^verbatim>\<open>solve_firm\<close> is the bisection on \<open>[0.01, 100]\<close>: the
  candidate of every iteration is the midpoint of the current interval, the lower endpoint
  is raised to it when the entrant value is below \<open>ce\<close> and the upper endpoint lowered
  otherwise, and the price returned is the first candidate whose entrant value is within
  \<open>tol\<close> of \<open>ce\<close>, or candidate number \<open>maxit\<close> when there is none. The free-entry
  condition holds at the returned price exactly when one of the \<open>maxit\<close> candidates met it.
\<close>

theorem solve_firm_bisection:
  assumes "shapes m" "0 < Nz m" "theta m \<noteq> 1" "0 < maxit m"
  shows "solve_firm m = Inr (bisection_spec m) \<and>
         (free_entry_met m (bisection_spec m) \<longleftrightarrow> price_converged m)"
  using solve_firm_eq[OF assms] price_stop_cases(1,3)[OF assms(4)] by blast

theorem solve_firm_bisection_witness:
  "shapes (unprofitable_model 2000) \<and> 0 < Nz (unprofitable_model 2000) \<and>
   theta (unprofitable_model 2000) \<noteq> 1 \<and> 0 < maxit (unprofitable_model 2000) \<and>
   solve_firm (unprofitable_model 2000) = Inr (bisection_spec (unprofitable_model 2000)) \<and>
   (free_entry_met (unprofitable_model 2000) (bisection_spec (unprofitable_model 2000))
      \<longleftrightarrow> price_converged (unprofitable_model 2000))"
  using solve_firm_bisection[of "unprofitable_model 2000"] unprofitable_model_facts[of 2000]
  by simp

text \<open>
  The claim C1 is false as stated: with a fixed cost that no price of the interval covers,
  the entrant value stays below \<open>ce\<close>, the lower endpoint is raised 2000 times, and the
  price returned does not satisfy the free-entry condition.
\<close>

theorem free_entry_counterexample:
  "solve_firm (unprofitable_model 2000) = Inr (100 - (9999 / 100) / 2 ^ 2000) \<and>
   \<not> free_entry_met (unprofitable_model 2000) (100 - (9999 / 100) / 2 ^ 2000)"
  using solve_firm_unprofitable_model[of 2000] by simp

text \<open>
  C8, as the code has it. \<^verbatim>\<open>solve_firm\<close> does not look at the entrant values at the
  endpoints of the initial interval. Its errors are UnboundLocalError when \<open>maxit = 0\<close>,
  ZeroDivisionError when \<open>theta = 1\<close> and ValueError when there is no state; in every
  other case it returns the price of the bisection.
\<close>

theorem solve_firm_errors:
  assumes "shapes m"
  shows "solve_firm m =
           (if maxit m = 0 then Inl UnboundLocalError
            else if theta m = 1 then Inl ZeroDivisionError
            else if Nz m = 0 then Inl ValueError
            else Inr (bisection_spec m))"
proof (cases "maxit m")
  case 0
  then show ?thesis by (simp add: solve_firm_def)
next
  case (Suc n)
  show ?thesis
  proof (cases "theta m = 1")
    case True
    then show ?thesis
      by (simp add: solve_firm_def Suc solve_vf_def incumbent_firm_def Let_def)
  next
    case th: False
    show ?thesis
    proof (cases "Nz m = 0")
      case True
      then show ?thesis
        using th
        by (simp add: solve_firm_def Suc solve_vf_def incumbent_firm_def Let_def zeros_def
              vsub_def)
    next
      case nz: False
      then show ?thesis
        using solve_firm_eq[OF assms _ th] Suc th by simp
    qed
  qed
qed

theorem solve_firm_errors_witness:
  "shapes (unprofitable_model 2000) \<and>
   solve_firm (unprofitable_model 2000) = Inr (bisection_spec (unprofitable_model 2000))"
  using solve_firm_errors[of "unprofitable_model 2000"] unprofitable_model_facts[of 2000]
  by simp

text \<open>
  The claim C8 is false as stated: the entrant value at \<open>pmax = 100\<close> is below \<open>ce\<close>, so
  the initial interval brackets no root, and \<^verbatim>\<open>solve_firm\<close> returns a price.
\<close>

theorem no_bracket_check_counterexample:
  "entrant_value (unprofitable_model 2000) 100 < ce (unprofitable_model 2000) \<and>
   solve_firm (unprofitable_model 2000) = Inr (100 - (9999 / 100) / 2 ^ 2000)"
  using entrant_value_unprofitable_model[of 2000] solve_firm_unprofitable_model(1)[of 2000]
  by simp

section \<open>Reaching the iteration cap\<close>

lemma max_abs_diff_ge:
  assumes "i < n"
  shows "\<bar>U ! i - V ! i\<bar> \<le> max_abs_diff n U V"
  unfolding max_abs_diff_def using assms by (intro Max_ge) auto

lemma unprofitable_model_vf_not_converged:
  assumes p: "1 / 100 < p" "p \<le> 100"
    and inc: "incumbent_firm (unprofitable_model 1) p = Inr (fp, fo, pn)"
  shows "\<not> vf_converged (unprofitable_model 1) fp"
proof -
  let ?m = "unprofitable_model 1"
  note f = unprofitable_model_facts[of 1]
  have len: "length fp = Nz ?m" "length (pi_mat ?m) = Nz ?m"
    using unprofitable_model_profit(1)[OF p inc] by (simp_all add: unprofitable_model_def)
  have neg: "\<forall>y \<in> set fp. y \<le> 0"
    using unprofitable_model_unprofitable[of 1] p inc unfolding unprofitable_def by blast
  have it1: "vf_iterate ?m fp (Suc 0) = fp"
    by (rule vf_iterate_nonpos_profit[OF len f(4) neg])
  have it0: "vf_iterate ?m fp 0 = replicate (Nz ?m) 0"
    by (simp add: vf_iterate_def)
  have "fp ! 0 \<le> - 1"
    using unprofitable_model_profit(2)[OF p inc, of 0] by simp
  moreover have "\<bar>vf_iterate ?m fp 0 ! 0 - vf_iterate ?m fp (Suc 0) ! 0\<bar>
      \<le> max_abs_diff (Nz ?m) (vf_iterate ?m fp 0) (vf_iterate ?m fp (Suc 0))"
    by (rule max_abs_diff_ge) (simp add: unprofitable_model_def)
  ultimately have "1 \<le> max_abs_diff (Nz ?m) (vf_iterate ?m fp 0) (vf_iterate ?m fp (Suc 0))"
    unfolding it1 it0 using f(2) by simp
  moreover have "tol ?m < 1" by (simp add: unprofitable_model_def)
  ultimately have "\<not> vf_converged_at ?m fp (Suc 0)"
    by (simp add: vf_converged_at_def)
  then show ?thesis
    by (simp add: vf_converged_def unprofitable_model_def)
qed

lemma unprofitable_model_price_not_converged:
  assumes "0 < n"
  shows "\<not> price_converged (unprofitable_model n)"
proof
  let ?m = "unprofitable_model n"
  note f = unprofitable_model_facts[of n]
  assume "price_converged ?m"
  have mx: "0 < maxit ?m" using assms f(9) by simp
  have "free_entry_met ?m (bisection_spec ?m)"
    using price_stop_cases(1)[OF mx] \<open>price_converged ?m\<close> .
  moreover have "bisection_spec ?m = 100 - (9999 / 100) / 2 ^ n"
    using solve_firm_eq[OF f(1-3) mx] solve_firm_unprofitable_model(1)[OF assms] by simp
  ultimately show False
    using solve_firm_unprofitable_model(2)[OF assms] by simp
qed

text \<open>
  C9, as the code has it. When the value-function iteration runs \<open>maxit\<close> iterations without
  meeting the tolerance, \<^verbatim>\<open>solve_vf\<close> returns iterate number \<open>maxit\<close> with the static
  solution, and when the bisection does, \<^verbatim>\<open>solve_firm\<close> returns candidate number
  \<open>maxit\<close>: values of the same form as those of a run that met the tolerance, with no
  flag beside them. The model has no warning channel because the source raises no warning.
\<close>

theorem maxit_reached_returns_last_iterate:
  assumes "shapes m" "0 < Nz m" "theta m \<noteq> 1"
  shows "(\<exists>fp fo pn. incumbent_firm m price = Inr (fp, fo, pn) \<and>
            (\<not> vf_converged m fp \<longrightarrow>
               solve_vf m price = Inr (vf_iterate m fp (maxit m), fp, fo, pn))) \<and>
         (0 < maxit m \<and> \<not> price_converged m \<longrightarrow>
            solve_firm m = Inr (price_candidate m (maxit m - 1)))"
proof -
  obtain fp fo pn where inc: "incumbent_firm m price = Inr (fp, fo, pn)"
    using incumbent_firm_Inr[OF assms(3)] by blast
  have "solve_vf m price = Inr (vf_iterate m fp (maxit m), fp, fo, pn)"
    if "\<not> vf_converged m fp"
    using solve_vf_eq[OF assms(1,2) inc] vf_stop_not_converged[OF that]
    by (simp add: vf_spec_def)
  moreover have "solve_firm m = Inr (price_candidate m (maxit m - 1))"
    if "0 < maxit m" "\<not> price_converged m"
    using solve_firm_eq[OF assms that(1)] price_stop_cases(2)[OF that] by simp
  ultimately show ?thesis using inc by blast
qed

theorem maxit_reached_returns_last_iterate_witness:
  "shapes (unprofitable_model 1) \<and> 0 < Nz (unprofitable_model 1) \<and>
   theta (unprofitable_model 1) \<noteq> 1 \<and>
   (\<exists>fp fo pn. incumbent_firm (unprofitable_model 1) 50 = Inr (fp, fo, pn) \<and>
       \<not> vf_converged (unprofitable_model 1) fp \<and>
       solve_vf (unprofitable_model 1) 50
         = Inr (vf_iterate (unprofitable_model 1) fp (maxit (unprofitable_model 1)), fp, fo, pn)) \<and>
   0 < maxit (unprofitable_model 1) \<and> \<not> price_converged (unprofitable_model 1) \<and>
   solve_firm (unprofitable_model 1)
     = Inr (price_candidate (unprofitable_model 1) (maxit (unprofitable_model 1) - 1))"
proof -
  let ?m = "unprofitable_model 1"
  note f = unprofitable_model_facts[of 1]
  note t = maxit_reached_returns_last_iterate[OF f(1-3), of 50]
  obtain fp fo pn where inc: "incumbent_firm ?m 50 = Inr (fp, fo, pn)"
    and vf: "\<not> vf_converged ?m fp \<longrightarrow>
               solve_vf ?m 50 = Inr (vf_iterate ?m fp (maxit ?m), fp, fo, pn)"
    using t by blast
  have nvf: "\<not> vf_converged ?m fp"
    by (rule unprofitable_model_vf_not_converged[OF _ _ inc]) simp_all
  have npc: "\<not> price_converged ?m"
    by (rule unprofitable_model_price_not_converged) simp
  have mx: "0 < maxit ?m" by (simp add: unprofitable_model_def)
  show ?thesis
    using f(1-3) inc vf nvf npc mx t by blast
qed

text \<open>
  The claim C9 is false as stated: none of the 2000 candidate prices meets the tolerance,
  and what \<^verbatim>\<open>solve_firm\<close> hands to its caller is the last candidate alone.
\<close>

theorem no_convergence_diagnostic_counterexample:
  "\<not> price_converged (unprofitable_model 2000) \<and>
   solve_firm (unprofitable_model 2000) = Inr (100 - (9999 / 100) / 2 ^ 2000)"
  using unprofitable_model_price_not_converged[of 2000]
    solve_firm_unprofitable_model(1)[of 2000] by simp

section \<open>The exit rule on monotone continuation values\<close>

lemma bsearch_left_sorted:
  assumes "sorted a" "lo \<le> hi" "hi \<le> length a"
    and "\<forall>i<lo. a ! i < v" "\<forall>i. hi \<le> i \<and> i < length a \<longrightarrow> v \<le> a ! i"
  shows "lo \<le> bsearch_left a v lo hi \<and> bsearch_left a v lo hi \<le> hi \<and>
         (\<forall>i<bsearch_left a v lo hi. a ! i < v) \<and>
         (\<forall>i. bsearch_left a v lo hi \<le> i \<and> i < length a \<longrightarrow> v \<le> a ! i)"
  using assms
proof (induction a v lo hi rule: bsearch_left.induct)
  case (1 a v lo hi)
  show ?case
  proof (cases "lo < hi")
    case False
    then have "bsearch_left a v lo hi = lo"
      by (subst bsearch_left.simps) simp
    then show ?thesis using 1(4-7) False by auto
  next
    case True
    let ?mid = "lo + (hi - lo) div 2"
    have mid: "lo \<le> ?mid" "?mid < hi" using True by linarith+
    show ?thesis
    proof (cases "a ! ?mid < v")
      case lt: True
      have eq: "bsearch_left a v lo hi = bsearch_left a v (?mid + 1) hi"
        using True lt by (subst bsearch_left.simps) (simp add: Let_def)
      have below: "\<forall>i<?mid + 1. a ! i < v"
      proof (intro allI impI)
        fix i assume "i < ?mid + 1"
        then have "i \<le> ?mid" by simp
        then have "a ! i \<le> a ! ?mid"
          using \<open>sorted a\<close> mid(2) 1(5) by (intro sorted_nth_mono) auto
        then show "a ! i < v" using lt by simp
      qed
      have "?mid + 1 \<le> bsearch_left a v (?mid + 1) hi \<and>
            bsearch_left a v (?mid + 1) hi \<le> hi \<and>
            (\<forall>i<bsearch_left a v (?mid + 1) hi. a ! i < v) \<and>
            (\<forall>i. bsearch_left a v (?mid + 1) hi \<le> i \<and> i < length a \<longrightarrow> v \<le> a ! i)"
        using mid(2) by (intro 1(1)[OF True refl lt 1(3) _ 1(5) below 1(7)]) simp
      then show ?thesis unfolding eq using mid(1) by auto
    next
      case ge: False
      have eq: "bsearch_left a v lo hi = bsearch_left a v lo ?mid"
        using True ge by (subst bsearch_left.simps) (simp add: Let_def)
      have above: "\<forall>i. ?mid \<le> i \<and> i < length a \<longrightarrow> v \<le> a ! i"
      proof (intro allI impI)
        fix i assume i: "?mid \<le> i \<and> i < length a"
        then have "a ! ?mid \<le> a ! i"
          using \<open>sorted a\<close> by (intro sorted_nth_mono) auto
        then show "v \<le> a ! i" using ge by simp
      qed
      have "lo \<le> bsearch_left a v lo ?mid \<and> bsearch_left a v lo ?mid \<le> ?mid \<and>
            (\<forall>i<bsearch_left a v lo ?mid. a ! i < v) \<and>
            (\<forall>i. bsearch_left a v lo ?mid \<le> i \<and> i < length a \<longrightarrow> v \<le> a ! i)"
        using mid 1(5) by (intro 1(2)[OF True refl ge 1(3) _ _ 1(6) above]) simp_all
      then show ?thesis unfolding eq using mid(2) by auto
    qed
  qed
qed

lemma searchsorted_sorted:
  assumes "sorted a"
  shows "searchsorted a v \<le> length a"
    and "\<forall>i<searchsorted a v. a ! i < v"
    and "\<forall>i. searchsorted a v \<le> i \<and> i < length a \<longrightarrow> v \<le> a ! i"
  using bsearch_left_sorted[OF assms, of 0 "length a" v]
  by (simp_all add: searchsorted_def)

lemma exit_policy_prefix:
  fixes g :: "real list"
  assumes "sorted_wrt (<) g" "k < length g"
  shows "map (\<lambda>z. if z < g ! k then 1 else 0) g
         = replicate k (1::int) @ replicate (length g - k) 0"
proof (intro nth_equalityI)
  show "length (map (\<lambda>z. if z < g ! k then (1::int) else 0) g)
        = length (replicate k (1::int) @ replicate (length g - k) 0)"
    using assms(2) by simp
next
  fix i assume "i < length (map (\<lambda>z. if z < g ! k then (1::int) else 0) g)"
  then have i: "i < length g" by simp
  have iff: "g ! i < g ! k \<longleftrightarrow> i < k"
  proof
    assume "i < k"
    then show "g ! i < g ! k"
      using assms by (simp add: sorted_wrt_nth_less)
  next
    assume lt: "g ! i < g ! k"
    show "i < k"
    proof (rule ccontr)
      assume "\<not> i < k"
      then have "k = i \<or> k < i" by auto
      then have "g ! k \<le> g ! i"
        using assms(1) i by (auto simp: sorted_wrt_nth_less less_imp_le)
      then show False using lt by simp
    qed
  qed
  show "map (\<lambda>z. if z < g ! k then (1::int) else 0) g ! i
        = (replicate k (1::int) @ replicate (length g - k) 0) ! i"
    using i iff by (simp add: nth_append)
qed

text \<open>
  C5. When the expected continuation value \<open>pi \<cdot> V\<close> is non-decreasing in the state,
  the grid is strictly increasing and some state has a non-negative continuation value,
  \<^verbatim>\<open>exit_decision\<close> returns as the cutoff the productivity of the first state \<open>k\<close>
  whose continuation value is not negative, and as the exit policy the states strictly
  below it: \<open>k\<close> ones followed by zeros. When no continuation value is negative,
  \<open>k = 0\<close>: the cutoff is the lowest grid point and no firm exits.
\<close>

theorem exit_decision_threshold:
  assumes "length (pi_mat m) = length (grid_z m)"
    and "sorted (matvec (pi_mat m) V)"
    and "sorted_wrt (<) (grid_z m)"
    and "\<exists>i<length (grid_z m). 0 \<le> matvec (pi_mat m) V ! i"
  shows "\<exists>k<length (grid_z m).
           (\<forall>i<k. matvec (pi_mat m) V ! i < 0) \<and> 0 \<le> matvec (pi_mat m) V ! k \<and>
           exit_decision m V
             = Inr (grid_z m ! k, replicate k 1 @ replicate (length (grid_z m) - k) 0) \<and>
           ((\<forall>i<length (grid_z m). 0 \<le> matvec (pi_mat m) V ! i) \<longrightarrow> k = 0)"
proof -
  let ?a = "matvec (pi_mat m) V"
  let ?k = "searchsorted ?a 0"
  have len: "length ?a = length (grid_z m)"
    using assms(1) by (simp add: matvec_def)
  note s = searchsorted_sorted[OF assms(2), of 0]
  obtain j where j: "j < length (grid_z m)" "0 \<le> ?a ! j"
    using assms(4) by blast
  have "\<not> j < ?k" using s(2) j(2) by (metis not_le)
  then have k: "?k < length (grid_z m)" using j(1) by simp
  have ge: "0 \<le> ?a ! ?k" using s(3) k len by simp
  have dec: "exit_decision m V
      = Inr (grid_z m ! ?k, replicate ?k 1 @ replicate (length (grid_z m) - ?k) 0)"
    using k exit_policy_prefix[OF assms(3) k]
    by (simp add: exit_decision_def Let_def)
  have zero: "?k = 0" if "\<forall>i<length (grid_z m). 0 \<le> ?a ! i"
  proof (rule ccontr)
    assume "?k \<noteq> 0"
    then have "0 < ?k" by simp
    then have "?a ! 0 < 0" using s(2) by blast
    moreover have "0 < length (grid_z m)" using k by linarith
    then have "0 \<le> ?a ! 0" using that by blast
    ultimately show False by simp
  qed
  show ?thesis
    using k s(2) ge dec zero by blast
qed

theorem exit_decision_threshold_witness:
  "length (pi_mat m_exit) = length (grid_z m_exit) \<and>
   sorted (matvec (pi_mat m_exit) [-1, 1]) \<and>
   sorted_wrt (<) (grid_z m_exit) \<and>
   (\<exists>i<length (grid_z m_exit). 0 \<le> matvec (pi_mat m_exit) [-1, 1] ! i) \<and>
   (\<exists>k<length (grid_z m_exit).
           (\<forall>i<k. matvec (pi_mat m_exit) [-1, 1] ! i < 0) \<and>
           0 \<le> matvec (pi_mat m_exit) [-1, 1] ! k \<and>
           exit_decision m_exit [-1, 1]
             = Inr (grid_z m_exit ! k, replicate k 1 @ replicate (length (grid_z m_exit) - k) 0) \<and>
           ((\<forall>i<length (grid_z m_exit). 0 \<le> matvec (pi_mat m_exit) [-1, 1] ! i) \<longrightarrow> k = 0))"
proof -
  have h1: "length (pi_mat m_exit) = length (grid_z m_exit)"
    by (simp add: m_exit_def)
  have h2: "sorted (matvec (pi_mat m_exit) [-1, 1])"
    by (simp add: m_exit_def matvec_def dot_def)
  have h3: "sorted_wrt (<) (grid_z m_exit)"
    by (simp add: m_exit_def)
  have "(1::nat) < length (grid_z m_exit) \<and> 0 \<le> matvec (pi_mat m_exit) [-1, 1] ! 1"
    by (simp add: m_exit_def matvec_def dot_def)
  then have h4: "\<exists>i<length (grid_z m_exit). 0 \<le> matvec (pi_mat m_exit) [-1, 1] ! i"
    by blast
  from exit_decision_threshold[OF h1 h2 h3 h4] h1 h2 h3 h4 show ?thesis by blast
qed

section \<open>The stationary distribution\<close>

lemma dot_sum:
  assumes "length xs = n" "length ys = n"
  shows "dot xs ys = (\<Sum>i<n. xs ! i * ys ! i)"
proof -
  have "map2 (*) xs ys = map (\<lambda>i. xs ! i * ys ! i) [0..<n]"
    using assms by (intro nth_equalityI) simp_all
  then show ?thesis
    by (simp add: dot_def sum_list_sum_nth atLeast0LessThan)
qed

lemma smul_one [simp]: "smul 1 xs = xs"
  by (simp add: smul_def)


lemma pi_tilde_nth:
  assumes "shapes m" "length pe = Nz m" "i < Nz m" "j < Nz m"
  shows "pi_tilde m pe ! j ! i = pi_mat m ! i ! j * real_of_int (1 - pe ! i)"
    and "length (pi_tilde m pe) = Nz m" "length (pi_tilde m pe ! j) = Nz m"
proof -
  have len: "length (pi_mat m) = Nz m" "length (pi_mat m ! i) = Nz m"
    using assms(1,3) by (simp_all add: shapes_def list_all_length)
  show "pi_tilde m pe ! j ! i = pi_mat m ! i ! j * real_of_int (1 - pe ! i)"
    using assms(2-4) len by (simp add: pi_tilde_def transpose_n_def)
  show "length (pi_tilde m pe) = Nz m"
    by (simp add: pi_tilde_def transpose_n_def)
  show "length (pi_tilde m pe ! j) = Nz m"
    using assms(2,4) len(1) by (simp add: pi_tilde_def transpose_n_def)
qed

lemma eye_nth:
  assumes "i < n" "j < n"
  shows "eye n ! i ! j = (if i = j then 1 else 0)" "length (eye n ! i) = n"
  using assms by (simp_all add: eye_def)

lemma matvec_eye:
  assumes "length v = n"
  shows "matvec (eye n) v = v"
proof (intro nth_equalityI)
  show "length (matvec (eye n) v) = length v"
    using assms by (simp add: matvec_def eye_def)
next
  fix j assume "j < length (matvec (eye n) v)"
  then have j: "j < n" by (simp add: matvec_def eye_def)
  have "dot (eye n ! j) v = (\<Sum>i<n. eye n ! j ! i * v ! i)"
    using j assms by (intro dot_sum) (simp_all add: eye_def)
  also have "\<dots> = (\<Sum>i<n. if j = i then v ! i else 0)"
    using j by (intro sum.cong) (simp_all add: eye_nth)
  also have "\<dots> = v ! j"
    using j by simp
  finally show "matvec (eye n) v ! j = v ! j"
    using j by (simp add: matvec_def eye_def)
qed

lemma matvec_mmul:
  assumes "length A = n" "list_all (\<lambda>row. length row = n) A"
    and "length B = n" "list_all (\<lambda>row. length row = n) B" "length v = n"
  shows "matvec (mmul n A B) v = matvec A (matvec B v)"
proof (intro nth_equalityI)
  show "length (matvec (mmul n A B) v) = length (matvec A (matvec B v))"
    by (simp add: matvec_def mmul_def)
next
  fix j assume "j < length (matvec (mmul n A B) v)"
  then have j: "j < n" using assms(1) by (simp add: matvec_def mmul_def)
  have lenA: "length (A ! j) = n"
    using assms(1,2) j by (simp add: list_all_length)
  have lenB: "length (B ! k) = n" if "k < n" for k
    using assms(3,4) that by (simp add: list_all_length)
  have col: "dot (A ! j) (map (\<lambda>r. r ! i) B) = (\<Sum>k<n. A ! j ! k * B ! k ! i)" for i
    using lenA assms(3) by (subst dot_sum[of _ n]) simp_all
  have "matvec (mmul n A B) v ! j
        = dot (map (\<lambda>i. dot (A ! j) (map (\<lambda>r. r ! i) B)) [0..<n]) v"
    using j assms(1) by (simp add: matvec_def mmul_def)
  also have "\<dots> = (\<Sum>i<n. (\<Sum>k<n. A ! j ! k * B ! k ! i) * v ! i)"
    using assms(5) by (subst dot_sum[of _ n]) (simp_all add: col)
  also have "\<dots> = (\<Sum>i<n. \<Sum>k<n. A ! j ! k * (B ! k ! i * v ! i))"
    by (simp add: sum_distrib_right mult.assoc)
  also have "\<dots> = (\<Sum>k<n. \<Sum>i<n. A ! j ! k * (B ! k ! i * v ! i))"
    by (rule sum.swap)
  also have "\<dots> = (\<Sum>k<n. A ! j ! k * (\<Sum>i<n. B ! k ! i * v ! i))"
    by (simp add: sum_distrib_left)
  also have "\<dots> = (\<Sum>k<n. A ! j ! k * matvec B v ! k)"
    using assms(3,5) lenB
    by (intro sum.cong refl) (simp add: matvec_def dot_sum[of _ n])
  also have "\<dots> = dot (A ! j) (matvec B v)"
    using lenA assms(3) by (subst dot_sum[of _ n]) (simp_all add: matvec_def)
  also have "\<dots> = matvec A (matvec B v) ! j"
    using j assms(1) by (simp add: matvec_def)
  finally show "matvec (mmul n A B) v ! j = matvec A (matvec B v) ! j" .
qed

lemma solve_model_Inr:
  assumes "solve_model m la_inv = Inr r"
  obtains p vf fp fo pn cutoff pe d0 where
    "solve_firm m = Inr p" "solve_vf m p = Inr (vf, fp, fo, pn)"
    "exit_decision m vf = Inr (cutoff, pe)"
    "solve_invariant_distribution m la_inv 1 pe = Inr d0"
    "price_ss r = p" "firm_output r = fo" "pol_n r = pn" "pol_exit r = pe"
    "distrib_stationary_0 r = d0" "m_star r = solve_m_star m d0 fo"
    "distrib_stationary r = smul (solve_m_star m d0 fo) d0"
proof -
  obtain p where p: "solve_firm m = Inr p"
    using assms by (cases "solve_firm m") (simp_all add: solve_model_def)
  obtain vf fp fo pn where v: "solve_vf m p = Inr (vf, fp, fo, pn)"
    using assms p by (cases "solve_vf m p") (auto simp: solve_model_def)
  obtain cutoff pe where e: "exit_decision m vf = Inr (cutoff, pe)"
    using assms p v by (cases "exit_decision m vf") (auto simp: solve_model_def)
  obtain d0 where d: "solve_invariant_distribution m la_inv 1 pe = Inr d0"
    using assms p v e
    by (cases "solve_invariant_distribution m la_inv 1 pe") (auto simp: solve_model_def)
  have "price_ss r = p" "firm_output r = fo" "pol_n r = pn" "pol_exit r = pe"
    "distrib_stationary_0 r = d0" "m_star r = solve_m_star m d0 fo"
    "distrib_stationary r = smul (solve_m_star m d0 fo) d0"
    using assms p v e d by (auto simp: solve_model_def Let_def)
  then show thesis using that p v e d by blast
qed

lemma exit_decision_length:
  assumes "exit_decision m V = Inr (cutoff, pe)"
  shows "length pe = length (grid_z m)"
  using assms by (auto simp: exit_decision_def Let_def split: if_splits)

lemma invariant_distribution_fixed_point:
  assumes sh: "shapes m" and pe: "length pe = Nz m"
    and inv: "la_inv (msub (eye (Nz m)) (pi_tilde m pe)) = Inr B"
    and B: "is_inverse (Nz m) (msub (eye (Nz m)) (pi_tilde m pe)) B"
    and j: "j < Nz m"
  shows "solve_invariant_distribution m la_inv mass pe = Inr (smul mass (matvec B (nu m)))"
    and "matvec B (nu m) ! j
         = nu m ! j + (\<Sum>i<Nz m. pi_tilde m pe ! j ! i * matvec B (nu m) ! i)"
proof -
  let ?n = "Nz m"
  let ?A = "msub (eye ?n) (pi_tilde m pe)"
  let ?x = "matvec B (nu m)"
  show "solve_invariant_distribution m la_inv mass pe = Inr (smul mass ?x)"
    by (simp add: solve_invariant_distribution_def inv)
  have lenB: "length B = ?n" "list_all (\<lambda>row. length row = ?n) B"
    using B by (simp_all add: is_inverse_def)
  have lenx: "length ?x = ?n" using lenB(1) by (simp add: matvec_def)
  have lenpt: "length (pi_tilde m pe) = ?n"
    by (simp add: pi_tilde_def transpose_n_def)
  have lenptr: "length (pi_tilde m pe ! k) = ?n" if "k < ?n" for k
    using pi_tilde_nth(3)[OF sh pe _ that] that by blast
  have lenA: "length ?A = ?n"
    using lenpt by (simp add: msub_def eye_def)
  have Arow: "?A ! k = vsub (eye ?n ! k) (pi_tilde m pe ! k)" if "k < ?n" for k
    using that lenpt by (simp add: msub_def eye_def)
  have lenArow: "length (?A ! k) = ?n" if "k < ?n" for k
    using that lenptr[OF that] by (simp add: Arow vsub_def eye_nth)
  have allA: "list_all (\<lambda>row. length row = ?n) ?A"
    using lenA lenArow by (simp add: list_all_length)
  have nu: "length (nu m) = ?n" using sh by (simp add: shapes_def)
  have "matvec ?A ?x = matvec (mmul ?n ?A B) (nu m)"
    by (rule matvec_mmul[OF lenA allA lenB nu, symmetric])
  also have "\<dots> = nu m"
    using B nu by (simp add: is_inverse_def matvec_eye)
  finally have Ax: "matvec ?A ?x = nu m" .
  have "nu m ! j = dot (?A ! j) ?x"
    using Ax j lenA by (metis matvec_def nth_map)
  also have "\<dots> = (\<Sum>i<?n. ?A ! j ! i * ?x ! i)"
    using lenArow[OF j] lenx by (rule dot_sum)
  also have "\<dots> = (\<Sum>i<?n. (if j = i then 1 else 0) * ?x ! i - pi_tilde m pe ! j ! i * ?x ! i)"
    using j lenptr[OF j]
    by (intro sum.cong refl) (simp add: Arow vsub_def eye_nth algebra_simps)
  also have "\<dots> = (\<Sum>i<?n. (if j = i then ?x ! i else 0))
                    - (\<Sum>i<?n. pi_tilde m pe ! j ! i * ?x ! i)"
    unfolding sum_subtractf[symmetric] by (intro sum.cong refl) simp
  also have "\<dots> = ?x ! j - (\<Sum>i<?n. pi_tilde m pe ! j ! i * ?x ! i)"
    using j by simp
  finally show "?x ! j = nu m ! j + (\<Sum>i<?n. pi_tilde m pe ! j ! i * ?x ! i)"
    by simp
qed

text \<open>
  C3. In \<^verbatim>\<open>solve_model\<close> the unnormalised mass is \<open>x = 1 \<cdot> B \<cdot> nu\<close> with \<open>B\<close> the
  inverse of \<open>I - pi_tilde\<close> that \<^verbatim>\<open>numpy.linalg.inv\<close> returned, so that
  \<open>x = nu + pi_tilde \<cdot> x\<close>; entry \<open>(j, i)\<close> of \<open>pi_tilde\<close> is \<open>pi[i][j] * (1 - pol_exit[i])\<close>,
  which is zero for every exiting state \<open>i\<close>; the entrant mass is
  \<open>m_star = D / (x \<cdot> firm_output)\<close> and the stationary distribution is \<open>m_star * x\<close>.
\<close>

theorem stationary_distribution_solver:
  assumes "shapes m" and "solve_model m la_inv = Inr r"
    and "returns_inverse (Nz m) la_inv"
  shows "(\<exists>B. la_inv (msub (eye (Nz m)) (pi_tilde m (pol_exit r))) = Inr B \<and>
              is_inverse (Nz m) (msub (eye (Nz m)) (pi_tilde m (pol_exit r))) B \<and>
              distrib_stationary_0 r = smul 1 (matvec B (nu m))) \<and>
         (\<forall>j<Nz m. distrib_stationary_0 r ! j
              = nu m ! j + (\<Sum>i<Nz m. pi_tilde m (pol_exit r) ! j ! i
                                        * distrib_stationary_0 r ! i)) \<and>
         (\<forall>i<Nz m. \<forall>j<Nz m. pi_tilde m (pol_exit r) ! j ! i
              = pi_mat m ! i ! j * real_of_int (1 - pol_exit r ! i)) \<and>
         (\<forall>i<Nz m. \<forall>j<Nz m. pol_exit r ! i = 1 \<longrightarrow> pi_tilde m (pol_exit r) ! j ! i = 0) \<and>
         m_star r = D m / dot (distrib_stationary_0 r) (firm_output r) \<and>
         distrib_stationary r = smul (m_star r) (distrib_stationary_0 r)"
proof -
  obtain p vf fp fo pn cutoff pe d0 where
    ed: "exit_decision m vf = Inr (cutoff, pe)"
    and sd: "solve_invariant_distribution m la_inv 1 pe = Inr d0"
    and r: "firm_output r = fo" "pol_exit r = pe" "distrib_stationary_0 r = d0"
      "m_star r = solve_m_star m d0 fo" "distrib_stationary r = smul (solve_m_star m d0 fo) d0"
    using solve_model_Inr[OF assms(2)] by metis
  let ?A = "msub (eye (Nz m)) (pi_tilde m pe)"
  have pe: "length pe = Nz m"
    using exit_decision_length[OF ed] assms(1) by (simp add: shapes_def)
  obtain B where B: "la_inv ?A = Inr B" and d0: "d0 = smul 1 (matvec B (nu m))"
    using sd by (cases "la_inv ?A") (auto simp: solve_invariant_distribution_def)
  have inv: "is_inverse (Nz m) ?A B"
    using assms(3) B unfolding returns_inverse_def by blast
  have fp: "\<forall>j<Nz m. d0 ! j = nu m ! j + (\<Sum>i<Nz m. pi_tilde m pe ! j ! i * d0 ! i)"
    using invariant_distribution_fixed_point(2)[where la_inv = la_inv, OF assms(1) pe B inv] d0
    by simp
  have ent: "\<forall>i<Nz m. \<forall>j<Nz m. pi_tilde m pe ! j ! i
              = pi_mat m ! i ! j * real_of_int (1 - pe ! i)"
    using pi_tilde_nth(1)[OF assms(1) pe] by blast
  then have zero: "\<forall>i<Nz m. \<forall>j<Nz m. pe ! i = 1 \<longrightarrow> pi_tilde m pe ! j ! i = 0"
    by simp
  show ?thesis
    unfolding r using B inv d0 fp ent zero by (auto simp: solve_m_star_def)
qed


subsection \<open>A run of the whole model\<close>

lemma upt_2: "[0..<2] = [0, 1]"
  by (simp add: upt_conv_Cons numeral_2_eq_2)

lemma inv_2x2_inverse:
  assumes "inv_2x2 A = Inr B"
  shows "is_inverse 2 A B"
proof -
  obtain a b c d where A: "A = [[a, b], [c, d]]" and det: "a * d - b * c \<noteq> 0"
    using assms
    by (auto simp: inv_2x2_def split: list.splits if_splits)
  have B: "B = [[d / (a * d - b * c), - b / (a * d - b * c)],
                [- c / (a * d - b * c), a / (a * d - b * c)]]"
    using assms det by (simp add: inv_2x2_def A)
  define q where "q = a * d - b * c"
  have q: "q \<noteq> 0" using det by (simp add: q_def)
  have qq: "a * d = q + b * c" by (simp add: q_def)
  have e1: "a * (d / q) + b * (- c / q) = 1" "c * (- b / q) + d * (a / q) = 1"
    "d / q * a + - b / q * c = 1" "- c / q * b + a / q * d = 1"
    using q qq by (simp_all add: field_simps)
  have e0: "a * (- b / q) + b * (a / q) = 0" "c * (d / q) + d * (- c / q) = 0"
    "d / q * b + - b / q * d = 0" "- c / q * a + a / q * c = 0"
    using q by (simp_all add: field_simps)
  show ?thesis
    unfolding A B q_def[symmetric]
    using e1 e0
    by (simp add: is_inverse_def mmul_def eye_def upt_2 dot_def)
qed

lemma list_two:
  assumes "length xs = 2"
  shows "xs = [xs ! 0, xs ! 1]"
  using assms by (intro nth_equalityI) (auto simp: less_Suc_eq numeral_2_eq_2)

lemma entry_model_facts:
  "shapes entry_model" "0 < Nz entry_model" "theta entry_model \<noteq> 1"
  "0 < maxit entry_model" "length (grid_z entry_model) = Nz entry_model"
  "theta entry_model \<noteq> 0"
  by (simp_all add: entry_model_def shapes_def)

lemma entry_model_static:
  fixes p :: real
  assumes "0 < p"
  shows "incumbent_firm entry_model p
         = Inr ([4 * p ^ 3 / 27 - 60000, 32 * p ^ 3 / 27 - 60000],
                [(2 * p / 3) ^ 2, 2 * (4 * p / 3) ^ 2],
                [(2 * p / 3) ^ 3, (4 * p / 3) ^ 3])"
proof -
  obtain fp fo pn where inc: "incumbent_firm entry_model p = Inr (fp, fo, pn)"
    using incumbent_firm_Inr[OF entry_model_facts(3)] by blast
  note len = incumbent_firm_length[OF inc entry_model_facts(5)]
  have b: "(b ^ 3) powr (2 / 3) = b ^ 2" "b powr 3 = b ^ 3" if "0 < b" for b :: real
  proof -
    show c: "b powr 3 = b ^ 3" using that by simp
    have "(b powr 3) powr (2 / 3) = b powr (3 * (2 / 3))"
      by (simp only: powr_powr)
    also have "\<dots> = b ^ 2" using that by simp
    finally show "(b ^ 3) powr (2 / 3) = b ^ 2" unfolding c .
  qed
  have b0: "pn ! 0 = (2 * p / 3) powr 3" and b1: "pn ! 1 = (4 * p / 3) powr 3"
    using incumbent_firm_nth(1)[OF inc entry_model_facts(5) _ entry_model_facts(6), of 0]
      incumbent_firm_nth(1)[OF inc entry_model_facts(5) _ entry_model_facts(6), of 1]
    by (simp_all add: entry_model_def)
  have f0: "fo ! 0 = (2 * p / 3) ^ 2" and f1: "fo ! 1 = 2 * (4 * p / 3) ^ 2"
    using incumbent_firm_nth(2)[OF inc entry_model_facts(5) _ entry_model_facts(6), of 0]
      incumbent_firm_nth(2)[OF inc entry_model_facts(5) _ entry_model_facts(6), of 1] assms
    unfolding b0 b1 by (simp_all add: entry_model_def b(1))
  have n0: "pn ! 0 = (2 * p / 3) ^ 3" and n1: "pn ! 1 = (4 * p / 3) ^ 3"
    using b0 b1 assms by (simp_all add: b(2))
  have p0: "fp ! 0 = 4 * p ^ 3 / 27 - 60000" and p1: "fp ! 1 = 32 * p ^ 3 / 27 - 60000"
    using incumbent_firm_nth(3)[OF inc entry_model_facts(5) _ entry_model_facts(6), of 0]
      incumbent_firm_nth(3)[OF inc entry_model_facts(5) _ entry_model_facts(6), of 1]
    unfolding f0 f1 n0 n1
    by (simp_all add: entry_model_def power2_eq_square power3_eq_cube field_simps)
  have l2: "length fp = 2" "length fo = 2" "length pn = 2"
    using len by (simp_all add: entry_model_def)
  have "fp = [fp ! 0, fp ! 1]" "fo = [fo ! 0, fo ! 1]" "pn = [pn ! 0, pn ! 1]"
    using list_two[OF l2(1)] list_two[OF l2(2)] list_two[OF l2(3)] .
  then show ?thesis
    unfolding inc p0 p1 f0 f1 n0 n1 by simp
qed

lemma bisection_spec_one_step:
  assumes "maxit m = 1"
  shows "bisection_spec m = 10001 / 200"
proof -
  have "price_stop_from m 0 (maxit m) = 0"
    unfolding assms by (simp add: price_stop_from_def split: option.split)
  then show ?thesis
    by (simp add: bisection_spec_def price_candidate_def candidate_def)
qed

lemma vf_spec_one_step:
  assumes "maxit m = 1" "length fp = Nz m"
  shows "vf_spec m fp = fp"
proof -
  have "vf_stop_from m fp 0 (maxit m) = 1"
    unfolding assms by (simp add: vf_stop_from_def split: option.split)
  moreover have "bellman m fp (replicate (Nz m) 0) = fp"
    using assms(2) by (intro nth_equalityI) (simp_all add: bellman_def dot_replicate_zero)
  ultimately show ?thesis
    by (simp add: vf_spec_def vf_iterate_def)
qed

lemma entry_model_solve_firm: "solve_firm entry_model = Inr (10001 / 200)"
  using solve_firm_eq[OF entry_model_facts(1-4)] bisection_spec_one_step[of entry_model]
  by (simp add: entry_model_def)

lemma entry_model_solve_vf:
  "solve_vf entry_model (10001 / 200)
   = Inr ([4 * (10001 / 200) ^ 3 / 27 - 60000, 32 * (10001 / 200) ^ 3 / 27 - 60000],
          [4 * (10001 / 200) ^ 3 / 27 - 60000, 32 * (10001 / 200) ^ 3 / 27 - 60000],
          [(2 * (10001 / 200) / 3) ^ 2, 2 * (4 * (10001 / 200) / 3) ^ 2],
          [(2 * (10001 / 200) / 3) ^ 3, (4 * (10001 / 200) / 3) ^ 3])"
proof -
  have inc: "incumbent_firm entry_model (10001 / 200)
     = Inr ([4 * (10001 / 200) ^ 3 / 27 - 60000, 32 * (10001 / 200) ^ 3 / 27 - 60000],
          [(2 * (10001 / 200) / 3) ^ 2, 2 * (4 * (10001 / 200) / 3) ^ 2],
          [(2 * (10001 / 200) / 3) ^ 3, (4 * (10001 / 200) / 3) ^ 3])"
    by (rule entry_model_static) simp
  have "vf_spec entry_model [4 * (10001 / 200) ^ 3 / 27 - 60000, 32 * (10001 / 200) ^ 3 / 27 - 60000]
        = [4 * (10001 / 200) ^ 3 / 27 - 60000, 32 * (10001 / 200) ^ 3 / 27 - 60000]"
    by (rule vf_spec_one_step) (simp_all add: entry_model_def)
  then show ?thesis
    using solve_vf_eq[OF entry_model_facts(1,2) inc] by simp
qed

lemma entry_model_exit_decision:
  "exit_decision entry_model
     [4 * (10001 / 200) ^ 3 / 27 - 60000, 32 * (10001 / 200) ^ 3 / 27 - 60000]
   = Inr (2, [1, 0])"
  by (simp add: exit_decision_def entry_model_def matvec_def dot_def searchsorted_def
        bsearch_left.simps power3_eq_cube Let_def)

lemma entry_model_invariant_distribution:
  "solve_invariant_distribution entry_model inv_2x2 1 [1, 0] = Inr [1, 2]"
  by (simp add: solve_invariant_distribution_def entry_model_def pi_tilde_def transpose_n_def
        msub_def vsub_def eye_def upt_2 inv_2x2_def smul_def matvec_def dot_def)

lemma entry_model_solve_model:
  "\<exists>r. solve_model entry_model inv_2x2 = Inr r \<and>
       distrib_stationary_0 r = [1, 2] \<and>
       firm_output r = [(2 * (10001 / 200) / 3) ^ 2, 2 * (4 * (10001 / 200) / 3) ^ 2]"
  by (simp add: solve_model_def entry_model_solve_firm entry_model_solve_vf
        entry_model_exit_decision entry_model_invariant_distribution Let_def)

theorem stationary_distribution_solver_witness:
  "shapes entry_model \<and> returns_inverse (Nz entry_model) inv_2x2 \<and>
   (\<exists>r. solve_model entry_model inv_2x2 = Inr r \<and>
     (\<exists>B. inv_2x2 (msub (eye (Nz entry_model)) (pi_tilde entry_model (pol_exit r))) = Inr B \<and>
          is_inverse (Nz entry_model)
            (msub (eye (Nz entry_model)) (pi_tilde entry_model (pol_exit r))) B \<and>
          distrib_stationary_0 r = smul 1 (matvec B (nu entry_model))) \<and>
     (\<forall>j<Nz entry_model. distrib_stationary_0 r ! j
          = nu entry_model ! j + (\<Sum>i<Nz entry_model. pi_tilde entry_model (pol_exit r) ! j ! i
                                    * distrib_stationary_0 r ! i)) \<and>
     (\<forall>i<Nz entry_model. \<forall>j<Nz entry_model. pi_tilde entry_model (pol_exit r) ! j ! i
          = pi_mat entry_model ! i ! j * real_of_int (1 - pol_exit r ! i)) \<and>
     (\<forall>i<Nz entry_model. \<forall>j<Nz entry_model.
          pol_exit r ! i = 1 \<longrightarrow> pi_tilde entry_model (pol_exit r) ! j ! i = 0) \<and>
     m_star r = D entry_model / dot (distrib_stationary_0 r) (firm_output r) \<and>
     distrib_stationary r = smul (m_star r) (distrib_stationary_0 r))"
proof -
  obtain r where r: "solve_model entry_model inv_2x2 = Inr r"
    using entry_model_solve_model by blast
  have c: "returns_inverse (Nz entry_model) inv_2x2"
    using inv_2x2_inverse by (simp add: entry_model_def returns_inverse_def)
  from stationary_distribution_solver[OF entry_model_facts(1) r c] r c entry_model_facts(1)
  show ?thesis by blast
qed


section \<open>Monotonicity of the value function\<close>

lemma dot_Cons [simp]: "dot (x # xs) (y # ys) = x * y + dot xs ys"
  by (simp add: dot_def)

lemma dot_Nil [simp]: "dot [] ys = 0" "dot xs [] = 0"
  by (simp_all add: dot_def)

lemma dot_tail_sums:
  assumes "length d = length V" "sorted V" "V \<noteq> []"
    and "\<forall>k. 1 \<le> k \<and> k < length d \<longrightarrow> 0 \<le> sum_list (drop k d)"
  shows "hd V * sum_list d \<le> dot d V"
  using assms
proof (induction d arbitrary: V)
  case Nil
  then show ?case by simp
next
  case (Cons x ds)
  obtain v vs where V: "V = v # vs" using Cons.prems(3) by (cases V) auto
  show ?case
  proof (cases vs)
    case Nil
    then show ?thesis using Cons.prems(1) V by simp
  next
    case (Cons v' vs')
    have len: "length ds = length vs" using Cons.prems(1) V by simp
    have srt: "sorted vs" "v \<le> v'" using Cons.prems(2) V Cons by simp_all
    have tails: "\<forall>k. 1 \<le> k \<and> k < length ds \<longrightarrow> 0 \<le> sum_list (drop k ds)"
    proof (intro allI impI)
      fix k assume "1 \<le> k \<and> k < length ds"
      then have "1 \<le> Suc k \<and> Suc k < length (x # ds)" by simp
      then have "0 \<le> sum_list (drop (Suc k) (x # ds))" using Cons.prems(4) by blast
      then show "0 \<le> sum_list (drop k ds)" by simp
    qed
    have "0 \<le> sum_list (drop 1 (x # ds))"
      using Cons.prems(4) len Cons by (intro Cons.prems(4)[rule_format]) simp
    then have nn: "0 \<le> sum_list ds" by simp
    have "hd vs * sum_list ds \<le> dot ds vs"
      using Cons.IH[OF len srt(1) _ tails] Cons by simp
    then have "v' * sum_list ds \<le> dot ds vs" using Cons by simp
    moreover have "v * sum_list ds \<le> v' * sum_list ds"
      using srt(2) nn by (rule mult_right_mono)
    ultimately show ?thesis
      using V by (simp add: algebra_simps)
  qed
qed

lemma dot_vsub:
  assumes "length r' = length r"
  shows "dot (vsub r' r) V = dot r' V - dot r V"
  using assms
proof (induction r' r arbitrary: V rule: list_induct2)
  case Nil
  then show ?case by (simp add: vsub_def)
next
  case (Cons x xs y ys)
  show ?case
  proof (cases V)
    case Nil
    then show ?thesis by simp
  next
    case (Cons v vs)
    have "vsub (x # xs) (y # ys) = (x - y) # vsub xs ys" by (simp add: vsub_def)
    then show ?thesis using Cons Cons.IH[of vs] by (simp add: algebra_simps)
  qed
qed

lemma sum_list_drop_vsub:
  assumes "length r' = length r"
  shows "sum_list (drop k (vsub r' r)) = sum_list (drop k r') - sum_list (drop k r)"
  using assms
proof (induction r' r arbitrary: k rule: list_induct2)
  case Nil
  then show ?case by (simp add: vsub_def)
next
  case (Cons x xs y ys)
  have v: "vsub (x # xs) (y # ys) = (x - y) # vsub xs ys" by (simp add: vsub_def)
  show ?case
    using Cons.IH[of 0] Cons.IH by (cases k) (simp_all add: v)
qed

lemma dominates_dot:
  assumes "dominates r r'" "length r = length V" "length r' = length V"
    and "sum_list r = sum_list r'" "sorted V"
  shows "dot r V \<le> dot r' V"
proof (cases "V = []")
  case True
  then show ?thesis by simp
next
  case False
  have len: "length r' = length r" using assms(2,3) by simp
  have tails: "\<forall>k. 1 \<le> k \<and> k < length (vsub r' r) \<longrightarrow> 0 \<le> sum_list (drop k (vsub r' r))"
  proof (intro allI impI)
    fix k assume k: "1 \<le> k \<and> k < length (vsub r' r)"
    then have "k < length r" by (simp add: vsub_def)
    then have "sum_list (drop k r) \<le> sum_list (drop k r')"
      using assms(1) by (simp add: dominates_def list_all_iff)
    then show "0 \<le> sum_list (drop k (vsub r' r))"
      by (simp add: sum_list_drop_vsub[OF len])
  qed
  have "sum_list (vsub r' r) = 0"
    using sum_list_drop_vsub[OF len, of 0] assms(4) by simp
  moreover have "hd V * sum_list (vsub r' r) \<le> dot (vsub r' r) V"
    using len assms(2) by (intro dot_tail_sums[OF _ assms(5) False tails]) (simp add: vsub_def)
  ultimately show ?thesis
    by (simp add: dot_vsub[OF len])
qed

lemma bellman_sorted:
  assumes "length (pi_mat m) = Nz m" "list_all (\<lambda>row. length row = Nz m) (pi_mat m)"
    and "monotone_matrix (pi_mat m)" "0 \<le> beta m"
    and "length fp = Nz m" "sorted fp" "length V = Nz m" "sorted V"
  shows "sorted (bellman m fp V)"
proof -
  have "bellman m fp V ! i \<le> bellman m fp V ! j" if "i \<le> j" "j < Nz m" for i j
  proof -
    have i: "i < Nz m" using that by simp
    have rows: "length (pi_mat m ! i) = length V" "length (pi_mat m ! j) = length V"
      using assms(1,2,7) i that(2) by (simp_all add: list_all_length)
    have sums: "sum_list (pi_mat m ! i) = sum_list (pi_mat m ! j)"
      using assms(1,3) i that(2) by (simp add: monotone_matrix_def list_all_length)
    have "dot (pi_mat m ! i) V \<le> dot (pi_mat m ! j) V"
    proof (cases "i = j")
      case True
      then show ?thesis by simp
    next
      case False
      then have "i < j" using that(1) by simp
      then have "dominates (pi_mat m ! i) (pi_mat m ! j)"
        using assms(1,3) that(2) by (simp add: monotone_matrix_def sorted_wrt_nth_less)
      then show ?thesis
        by (rule dominates_dot[OF _ rows sums assms(8)])
    qed
    then have "beta m * max 0 (dot (pi_mat m ! i) V) \<le> beta m * max 0 (dot (pi_mat m ! j) V)"
      using assms(4) by (intro mult_left_mono) auto
    moreover have "fp ! i \<le> fp ! j"
      using assms(5,6) that by (simp add: sorted_nth_mono)
    ultimately show ?thesis
      using i that(2) by (simp add: bellman_def)
  qed
  then show ?thesis
    by (simp add: sorted_iff_nth_mono)
qed

lemma vf_iterate_sorted:
  assumes "length (pi_mat m) = Nz m" "list_all (\<lambda>row. length row = Nz m) (pi_mat m)"
    and "monotone_matrix (pi_mat m)" "0 \<le> beta m"
    and "length fp = Nz m" "sorted fp"
  shows "sorted (vf_iterate m fp k)"
proof (induction k)
  case 0
  show ?case by (simp add: vf_iterate_def sorted_replicate)
next
  case (Suc k)
  have "vf_iterate m fp (Suc k) = bellman m fp (vf_iterate m fp k)"
    by (simp add: vf_iterate_def)
  then show ?case
    using bellman_sorted[OF assms, of "vf_iterate m fp k"] Suc by simp
qed

lemma profit_closed_form:
  fixes th p z w :: real
  assumes th: "0 < th" "th < 1" and "0 < p" "0 < z" "0 < w"
  defines "n \<equiv> ((th * p * z) / w) powr (1 / (1 - th))"
  shows "p * (z * n powr th) - w * n
         = (1 - th) * p * (z * ((th * p * z) / w) powr (th / (1 - th)))"
proof -
  define b where "b = (th * p * z) / w"
  have b: "0 < b" using assms by (simp add: b_def)
  have e: "1 / (1 - th) = 1 + th / (1 - th)"
    using th by (simp add: field_simps)
  have n1: "n = b * b powr (th / (1 - th))"
    unfolding n_def b_def[symmetric] e using b by (simp add: powr_add)
  have "n powr th = b powr (1 / (1 - th) * th)"
    unfolding n_def b_def[symmetric] by (simp only: powr_powr)
  then have n2: "n powr th = b powr (th / (1 - th))" by simp
  have wb: "w * b = th * p * z" using assms(5) by (simp add: b_def)
  have "p * (z * n powr th) - w * n
        = p * z * b powr (th / (1 - th)) - (w * b) * b powr (th / (1 - th))"
    unfolding n2 by (subst n1) (simp add: algebra_simps)
  also have "\<dots> = (1 - th) * p * (z * b powr (th / (1 - th)))"
    unfolding wb by (simp add: algebra_simps)
  finally show ?thesis unfolding b_def .
qed

lemma profit_mono:
  fixes th p z z' w :: real
  assumes th: "0 < th" "th < 1" and "0 < p" "0 < z" "z \<le> z'" "0 < w"
  shows "p * (z * (((th * p * z) / w) powr (1 / (1 - th))) powr th)
           - w * ((th * p * z) / w) powr (1 / (1 - th))
       \<le> p * (z' * (((th * p * z') / w) powr (1 / (1 - th))) powr th)
           - w * ((th * p * z') / w) powr (1 / (1 - th))"
proof -
  have z': "0 < z'" using assms(4,5) by simp
  have e: "0 \<le> th / (1 - th)" using th by simp
  have "(th * p * z) / w \<le> (th * p * z') / w"
    using assms by (simp add: divide_right_mono mult_left_mono)
  moreover have "0 \<le> (th * p * z) / w" using assms by simp
  ultimately have "((th * p * z) / w) powr (th / (1 - th))
      \<le> ((th * p * z') / w) powr (th / (1 - th))"
    using e by (intro powr_mono2) simp_all
  then have "z * ((th * p * z) / w) powr (th / (1 - th))
      \<le> z' * ((th * p * z') / w) powr (th / (1 - th))"
    using assms(4,5) by (intro mult_mono) simp_all
  moreover have "0 \<le> (1 - th) * p" using th assms(3) by simp
  ultimately have "(1 - th) * p * (z * ((th * p * z) / w) powr (th / (1 - th)))
      \<le> (1 - th) * p * (z' * ((th * p * z') / w) powr (th / (1 - th)))"
    by (rule mult_left_mono)
  then show ?thesis
    unfolding profit_closed_form[OF th assms(3,4,6)] profit_closed_form[OF th assms(3) z' assms(6)] .
qed

lemma incumbent_firm_profit_sorted:
  assumes inc: "incumbent_firm m price = Inr (fp, fo, pn)"
    and len: "length (grid_z m) = Nz m"
    and par: "0 < theta m" "theta m < 1" "0 < wage m" "0 < price"
    and grid: "sorted (grid_z m)" "\<forall>z \<in> set (grid_z m). 0 < z"
  shows "sorted fp"
proof -
  have "fp ! i \<le> fp ! j" if "i \<le> j" "j < length fp" for i j
  proof -
    have j: "j < Nz m" using that(2) incumbent_firm_length(1)[OF inc len] by simp
    then have i: "i < Nz m" using that(1) by simp
    have th: "theta m \<noteq> 0" using par(1) by simp
    have zi: "0 < grid_z m ! i" using grid(2) i len by simp
    have zz: "grid_z m ! i \<le> grid_z m ! j"
      using grid(1) that(1) j len by (simp add: sorted_nth_mono)
    show ?thesis
      using profit_mono[OF par(1,2,4) zi zz par(3)]
        incumbent_firm_nth[OF inc len i th] incumbent_firm_nth[OF inc len j th]
      by simp
  qed
  then show ?thesis by (simp add: sorted_iff_nth_mono)
qed

text \<open>
  C7. For a positive price, parameters in their domains (\<open>0 < theta < 1\<close>, a positive
  wage, \<open>beta \<ge> 0\<close>), a positive increasing productivity grid and a monotone transition
  matrix, profits are non-decreasing in the state, every Bellman iterate from \<open>VF = 0\<close> is
  non-decreasing in the state, and so is the value function that \<^verbatim>\<open>solve_vf\<close> returns.
\<close>

theorem solve_vf_monotone:
  assumes "shapes m" "0 < Nz m"
    and "0 < theta m" "theta m < 1" "0 < wage m" "0 \<le> beta m" "0 < price"
    and "sorted_wrt (<) (grid_z m)" "\<forall>z \<in> set (grid_z m). 0 < z"
    and "monotone_matrix (pi_mat m)"
  shows "\<exists>V fp fo pn. solve_vf m price = Inr (V, fp, fo, pn) \<and> sorted V \<and> sorted fp \<and>
           (\<forall>k. sorted (vf_iterate m fp k))"
proof -
  have th: "theta m \<noteq> 1" using assms(4) by simp
  obtain fp fo pn where inc: "incumbent_firm m price = Inr (fp, fo, pn)"
    using incumbent_firm_Inr[OF th] by blast
  have len: "length (grid_z m) = Nz m" "length (pi_mat m) = Nz m"
    "list_all (\<lambda>row. length row = Nz m) (pi_mat m)"
    using assms(1) by (simp_all add: shapes_def)
  have grid: "sorted (grid_z m)"
    using assms(8) by (rule strict_sorted_imp_sorted)
  have fp: "sorted fp"
    by (rule incumbent_firm_profit_sorted[OF inc len(1) assms(3,4,5,7) grid assms(9)])
  have it: "sorted (vf_iterate m fp k)" for k
    by (rule vf_iterate_sorted[OF len(2,3) assms(10,6) incumbent_firm_length(1)[OF inc len(1)] fp])
  have "solve_vf m price = Inr (vf_spec m fp, fp, fo, pn)"
    by (rule solve_vf_eq[OF assms(1,2) inc])
  moreover have "sorted (vf_spec m fp)"
    unfolding vf_spec_def by (rule it)
  ultimately show ?thesis using fp it by blast
qed

theorem solve_vf_monotone_witness:
  "shapes m_exit \<and> 0 < Nz m_exit \<and> 0 < theta m_exit \<and> theta m_exit < 1 \<and>
   0 < wage m_exit \<and> 0 \<le> beta m_exit \<and> (0::real) < 1 \<and>
   sorted_wrt (<) (grid_z m_exit) \<and> list_all (\<lambda>z. 0 < z) (grid_z m_exit) \<and>
   monotone_matrix (pi_mat m_exit) \<and>
   (\<exists>V fp fo pn. solve_vf m_exit 1 = Inr (V, fp, fo, pn) \<and> sorted V \<and> sorted fp \<and>
           (\<forall>k. sorted (vf_iterate m_exit fp k)))"
proof -
  have h: "shapes m_exit" "0 < Nz m_exit" "0 < theta m_exit" "theta m_exit < 1"
    "0 < wage m_exit" "0 \<le> beta m_exit" "(0::real) < 1"
    "sorted_wrt (<) (grid_z m_exit)" "\<forall>z \<in> set (grid_z m_exit). 0 < z"
    "monotone_matrix (pi_mat m_exit)"
    by (simp_all add: m_exit_def shapes_def monotone_matrix_def dominates_def)
  have "list_all (\<lambda>z. 0 < z) (grid_z m_exit)" by (simp add: m_exit_def)
  with solve_vf_monotone[OF h] h show ?thesis by blast
qed

section \<open>Market clearing\<close>














end
